theory Spec2Isabelle
  imports Main "HOL-Library.Sublist" "HOL-Library.AList"
begin

section \<open>jupyter\_drives/handlers.py: the request handlers of jupyter-drives\<close>

text \<open>
  The development follows \<^verbatim>\<open>src/jupyter_drives/handlers.py\<close>. Python strings are
  \<^typ>\<open>string\<close>; a raised exception is the \<open>Inl\<close> branch of a sum; the memo table of
  \<^verbatim>\<open>functools.lru_cache\<close>, the log and the handler table of the web application are
  explicit state.
\<close>

subsection \<open>Values and exceptions\<close>

text \<open>What \<^verbatim>\<open>json.loads\<close> produces and \<^verbatim>\<open>json.dumps\<close> consumes. An object is the
  dictionary it was parsed to, read with \<open>map_of\<close>.\<close>

datatype json =
    JNull
  | JBool bool
  | JNum int
  | JStr string
  | JArr "json list"
  | JObj "(string \<times> json) list"

text \<open>The exceptions the handlers meet. \<open>HTTPError status reason error_code\<close> is
  \<^verbatim>\<open>tornado.web.HTTPError\<close>: \<^verbatim>\<open>reason\<close> is \<^verbatim>\<open>None\<close> unless given, and
  \<^verbatim>\<open>error_code\<close> is an attribute only some instances carry. \<open>BaseExc\<close> stands for
  the exceptions that do not derive from \<^verbatim>\<open>Exception\<close> (\<^verbatim>\<open>KeyboardInterrupt\<close>,
  \<^verbatim>\<open>SystemExit\<close>).\<close>

datatype exn =
    HTTPError nat "string option" "json option"
  | KeyError string
  | TypeError string
  | NotImplementedError
  | OtherException string
  | BaseExc string

fun is_HTTPError :: "exn \<Rightarrow> bool" where
  "is_HTTPError (HTTPError s r c) = True"
| "is_HTTPError e = False"

fun is_Exception :: "exn \<Rightarrow> bool" where
  "is_Exception (BaseExc m) = False"
| "is_Exception e = True"

subsection \<open>The library functions \<^verbatim>\<open>url2localpath\<close> calls\<close>

text \<open>\<^verbatim>\<open>str.split(sep)\<close> for a one-character separator: never an empty list.\<close>

fun split_sep :: "char \<Rightarrow> string \<Rightarrow> string list" where
  "split_sep s [] = [[]]"
| "split_sep s (c # cs) =
     (if c = s then [] # split_sep s cs
      else (case split_sep s cs of
              w # ws \<Rightarrow> (c # w) # ws
            | [] \<Rightarrow> [[c]]))"

definition startswith_sep :: "string \<Rightarrow> bool" where
  "startswith_sep b = (case b of [] \<Rightarrow> False | c # cs \<Rightarrow> c = CHR ''/'')"

definition endswith_sep :: "string \<Rightarrow> bool" where
  "endswith_sep p = (p \<noteq> [] \<and> last p = CHR ''/'')"

text \<open>\<^verbatim>\<open>posixpath.join(a, *p)\<close>: the body of its loop, then the loop.
  \<^verbatim>\<open>
  for b in p:
      if b.startswith(sep):                  path = b
      elif not path or path.endswith(sep):   path += b
      else:                                  path += sep + b
  \<close>\<close>

definition join_step :: "string \<Rightarrow> string \<Rightarrow> string" where
  "join_step path b =
     (if startswith_sep b then b
      else if path = [] \<or> endswith_sep path then path @ b
      else path @ ''/'' @ b)"

definition join :: "string \<Rightarrow> string list \<Rightarrow> string" where
  "join a p = foldl join_step a p"

text \<open>\<^verbatim>\<open>urllib.parse.unquote\<close>: every \<^verbatim>\<open>%xy\<close> with two hexadecimal digits becomes the
  byte \<open>16 * x + y\<close>, any other \<^verbatim>\<open>%\<close> stays. A string stands for its UTF-8 bytes; the
  replacement of ill-formed UTF-8 by U+FFFD is not modelled.\<close>

definition hexval :: "char \<Rightarrow> nat option" where
  "hexval c =
     (let n = (of_char c :: nat) in
      if 48 \<le> n \<and> n \<le> 57 then Some (n - 48)
      else if 65 \<le> n \<and> n \<le> 70 then Some (n - 55)
      else if 97 \<le> n \<and> n \<le> 102 then Some (n - 87)
      else None)"

fun unquote :: "string \<Rightarrow> string" where
  "unquote [] = []"
| "unquote [c] = [c]"
| "unquote [c, a] = [c, a]"
| "unquote (c # a # b # rest) =
     (if c = CHR ''%'' then
        (case (hexval a, hexval b) of
           (Some x, Some y) \<Rightarrow> char_of (16 * x + y) # unquote rest
         | _ \<Rightarrow> c # unquote (a # b # rest))
      else c # unquote (a # b # rest))"

text \<open>\<^verbatim>\<open>jupyter_server.utils.url2path\<close>:
  \<^verbatim>\<open>
  pieces = [unquote(p) for p in url.split("/")]
  path = os.path.join(*pieces)
  \<close>
  \<^verbatim>\<open>split\<close> never returns an empty list, so \<^verbatim>\<open>join\<close> always has its first argument;
  the \<open>[]\<close> branch is there for totality only.\<close>

definition url2path :: "string \<Rightarrow> string" where
  "url2path url =
     (case map unquote (split_sep CHR ''/'' url) of
        [] \<Rightarrow> []
      | a # p \<Rightarrow> join a p)"

text \<open>What \<^verbatim>\<open>posixpath.expanduser\<close> reads from the process: \<^verbatim>\<open>os.environ.get('HOME')\<close>,
  the home directory of the current user in the password database, and that of a
  named user (\<open>None\<close> where the lookup raises \<^verbatim>\<open>KeyError\<close>).\<close>

record os_env =
  environ_HOME :: "string option"
  getpwuid_dir :: "string option"
  getpwnam_dir :: "string \<Rightarrow> string option"

definition rstrip_sep :: "string \<Rightarrow> string" where
  "rstrip_sep s = rev (dropWhile (\<lambda>c. c = CHR ''/'') (rev s))"

definition expanduser :: "os_env \<Rightarrow> string \<Rightarrow> string" where
  "expanduser env path =
     (case path of
        [] \<Rightarrow> path
      | t # rest \<Rightarrow>
          if t \<noteq> CHR ''~'' then path
          else
            let i = length (takeWhile (\<lambda>c. c \<noteq> CHR ''/'') path);
                userhome =
                  (if i = 1 then
                     (case environ_HOME env of
                        None \<Rightarrow> getpwuid_dir env
                      | Some h \<Rightarrow> Some h)
                   else getpwnam_dir env (take (i - 1) (drop 1 path)))
            in (case userhome of
                  None \<Rightarrow> path
                | Some h \<Rightarrow>
                    (let r = rstrip_sep h @ drop i path
                     in if r = [] then ''/'' else r)))"

subsection \<open>Contents managers and the handler\<close>

record contents_manager =
  root_dir :: string

text \<open>\<^verbatim>\<open>self.contents_manager\<close> is either an ordinary manager or a
  \<^verbatim>\<open>hybridcontents.HybridContentsManager\<close>, which has a \<^verbatim>\<open>root_dir\<close> of its own and
  the dictionary \<^verbatim>\<open>managers\<close> from path prefix to sub-manager.\<close>

datatype host_manager =
    Plain contents_manager
  | Hybrid contents_manager "(string \<times> contents_manager) list"

type_synonym resolver =
  "string \<Rightarrow> (string \<times> contents_manager) list \<Rightarrow> exn + (string \<times> contents_manager \<times> string)"

text \<open>The surroundings of a handler. \<open>hybridcontents\<close> is \<open>None\<close> when the import of
  the module failed, and otherwise holds its function
  \<^verbatim>\<open>hybridmanager._resolve_path\<close>, which is not part of this repository and is taken
  as given. \<open>contents_manager_of\<close> is the contents manager the handler instance with
  the given identity sees now; \<open>debug\<close> is the debug setting of the application;
  \<open>format_exception\<close> is \<^verbatim>\<open>traceback.format_exception\<close> on the exception being
  handled.\<close>

record world =
  hybridcontents :: "resolver option"
  os :: os_env
  contents_manager_of :: "nat \<Rightarrow> host_manager"
  debug :: bool
  format_exception :: "exn \<Rightarrow> string list"

datatype resolved =
    LocalPath string
  | WithManager string host_manager

text \<open>The body of \<^verbatim>\<open>url2localpath\<close> (lines 63 to 72), without the decorator.\<close>

definition url2localpath_body ::
  "world \<Rightarrow> nat \<Rightarrow> string \<Rightarrow> bool \<Rightarrow> exn + resolved" where
  "url2localpath_body w self path with_contents_manager =
     (let cm = contents_manager_of w self;
          sel =
            (case (hybridcontents w, cm) of
               (Some resolve_path, Hybrid own managers) \<Rightarrow>
                 (case resolve_path path managers of
                    Inl e \<Rightarrow> Inl e
                  | Inr (pfx, sub, path') \<Rightarrow> Inr (Plain sub, root_dir sub, path'))
             | (_, Hybrid own managers) \<Rightarrow> Inr (cm, root_dir own, path)
             | (_, Plain m) \<Rightarrow> Inr (cm, root_dir m, path))
      in case sel of
           Inl e \<Rightarrow> Inl e
         | Inr (cm', root, path') \<Rightarrow>
             (let local_path = join (expanduser (os w) root) [url2path path']
              in Inr (if with_contents_manager then WithManager local_path cm'
                      else LocalPath local_path)))"


subsection \<open>The memo table of \<^verbatim>\<open>functools.lru_cache\<close>\<close>

text \<open>\<^verbatim>\<open>@functools.lru_cache()\<close> keeps one table for the function, shared by all handler
  instances, keyed by the arguments as passed: \<^verbatim>\<open>self\<close> (hashed by identity),
  \<^verbatim>\<open>path\<close>, and \<^verbatim>\<open>with_contents_manager\<close> when it is given. The defaults are
  \<^verbatim>\<open>maxsize=128, typed=False\<close>. The table is a list, most recently used first: a hit
  moves its entry to the front, a miss calls the function, stores the value at the front
  and drops the least recently used entry beyond \<open>maxsize\<close>; a call that raises
  stores nothing. \<^verbatim>\<open>lru_cache\<close> also keeps a flag passed by keyword apart from one
  passed by position; the only call in \<^verbatim>\<open>handlers.py\<close> is \<^verbatim>\<open>url2localpath(path)\<close>, and
  the two ways of passing the flag are one key here.\<close>

type_synonym cache_key = "nat \<times> string \<times> bool option"

type_synonym cache = "(cache_key \<times> resolved) list"

definition maxsize :: nat where
  "maxsize = 128"

definition url2localpath ::
  "world \<Rightarrow> nat \<Rightarrow> string \<Rightarrow> bool option \<Rightarrow> cache \<Rightarrow> (exn + resolved) \<times> cache" where
  "url2localpath w self path flag c =
     (let key = (self, path, flag) in
      case map_of c key of
        Some v \<Rightarrow> (Inr v, (key, v) # filter (\<lambda>e. fst e \<noteq> key) c)
      | None \<Rightarrow>
          (case url2localpath_body w self path (case flag of None \<Rightarrow> False | Some b \<Rightarrow> b) of
             Inl e \<Rightarrow> (Inl e, c)
           | Inr v \<Rightarrow> (Inr v, take maxsize ((key, v) # c))))"

text \<open>A sequence of calls, each made in the world of its moment.\<close>

type_synonym call = "world \<times> nat \<times> string \<times> bool option"

definition call_key :: "call \<Rightarrow> cache_key" where
  "call_key cl = snd cl"

fun run_calls :: "call list \<Rightarrow> cache \<Rightarrow> cache" where
  "run_calls [] c = c"
| "run_calls ((w, self, path, flag) # cs) c = run_calls cs (snd (url2localpath w self path flag c))"

text \<open>The same call made on each of several handler instances.\<close>

definition calls_on :: "world \<Rightarrow> string \<Rightarrow> bool option \<Rightarrow> nat list \<Rightarrow> call list" where
  "calls_on w path flag selves = map (\<lambda>self. (w, self, path, flag)) selves"

subsection \<open>\<^verbatim>\<open>write_error\<close> and the way a raised exception is answered\<close>

text \<open>\<open>payload = None\<close> is an empty body, \<open>Some j\<close> the text \<^verbatim>\<open>json.dumps(j)\<close>.\<close>

record response =
  status :: nat
  content_type :: "string option"
  payload :: "json option"

text \<open>\<^verbatim>\<open>write_error(status_code, **kwargs)\<close>, lines 40 to 51. The status line is the one
  \<^verbatim>\<open>send_error\<close> has set before the call; \<open>exc_info\<close> is \<^verbatim>\<open>kwargs.get("exc_info")\<close>.\<close>

definition write_error :: "world \<Rightarrow> nat \<Rightarrow> exn option \<Rightarrow> response" where
  "write_error w status_code exc_info =
     (let reply = [(''error'', JStr ''Unhandled error'')];
          reply =
            (case exc_info of
               None \<Rightarrow> reply
             | Some e \<Rightarrow>
                 (case e of
                    HTTPError s reason code \<Rightarrow>
                      (let reply = AList.update ''error''
                                     (case reason of None \<Rightarrow> JNull | Some r \<Rightarrow> JStr r) reply
                       in case code of
                            None \<Rightarrow> reply
                          | Some ec \<Rightarrow> AList.update ''error_code'' ec reply)
                  | _ \<Rightarrow> AList.update ''error'' (JStr (concat (format_exception w e))) reply))
      in \<lparr>status = status_code, content_type = Some ''application/json'',
          payload = Some (JObj reply)\<rparr>)"

text \<open>Tornado's \<^verbatim>\<open>_handle_request_exception\<close>: the status of an \<^verbatim>\<open>HTTPError\<close> is its
  own, that of any other exception is 500.\<close>

definition handle_request_exception :: "world \<Rightarrow> exn \<Rightarrow> response" where
  "handle_request_exception w e =
     (case e of
        HTTPError s reason code \<Rightarrow> write_error w s (Some e)
      | _ \<Rightarrow> write_error w 500 (Some e))"

subsection \<open>\<^verbatim>\<open>MountJupyterDriveHandler.post\<close>\<close>

text \<open>The drives manager the handler was initialised with. Its class is chosen at
  startup and is not part of \<^verbatim>\<open>handlers.py\<close>: its two operations are taken as given.\<close>

record manager =
  mount_drive :: "json \<Rightarrow> string \<Rightarrow> exn + json"
  unmount_drive :: "json \<Rightarrow> string \<Rightarrow> exn + json"

record handler =
  ident :: nat
  handler_manager :: manager

datatype request_body = NoBody | BadJSON | Parsed json

record request =
  current_user :: "string option"
  request_body :: request_body

text \<open>\<^verbatim>\<open>APIHandler.get_json_body\<close>: \<^verbatim>\<open>None\<close> for an empty body, and
  \<^verbatim>\<open>web.HTTPError(400, "Invalid JSON in body of request")\<close> for text that is not JSON:
  the text is the log message of the exception, whose \<^verbatim>\<open>reason\<close> stays \<^verbatim>\<open>None\<close>.\<close>

definition get_json_body :: "request \<Rightarrow> exn + json" where
  "get_json_body req =
     (case request_body req of
        NoBody \<Rightarrow> Inr JNull
      | BadJSON \<Rightarrow> Inl (HTTPError 400 None None)
      | Parsed j \<Rightarrow> Inr j)"

text \<open>A name between the single quotes Python puts around it in a message.\<close>

definition quoted :: "string \<Rightarrow> string" where
  "quoted s = [CHR 0x27] @ s @ [CHR 0x27]"

text \<open>\<^verbatim>\<open>body[key]\<close> for a string key: a dictionary is looked up, anything else refuses.\<close>

fun getitem :: "json \<Rightarrow> string \<Rightarrow> exn + json" where
  "getitem (JObj kvs) k = (case map_of kvs k of None \<Rightarrow> Inl (KeyError k) | Some v \<Rightarrow> Inr v)"
| "getitem JNull k = Inl (TypeError (quoted ''NoneType'' @ '' object is not subscriptable''))"
| "getitem (JBool b) k = Inl (TypeError (quoted ''bool'' @ '' object is not subscriptable''))"
| "getitem (JNum n) k = Inl (TypeError (quoted ''int'' @ '' object is not subscriptable''))"
| "getitem (JStr s) k =
     Inl (TypeError (''string indices must be integers, not '' @ quoted ''str''))"
| "getitem (JArr xs) k = Inl (TypeError ''list indices must be integers or slices, not str'')"

text \<open>The truth value \<^verbatim>\<open>if mount_drive:\<close> tests.\<close>

fun truthy :: "json \<Rightarrow> bool" where
  "truthy JNull = False"
| "truthy (JBool b) = b"
| "truthy (JNum n) = (n \<noteq> 0)"
| "truthy (JStr s) = (s \<noteq> [])"
| "truthy (JArr xs) = (xs \<noteq> [])"
| "truthy (JObj kvs) = (kvs \<noteq> [])"

text \<open>\<^verbatim>\<open>json.dump(obj, fp)\<close> writes to \<^verbatim>\<open>fp\<close> and returns \<^verbatim>\<open>None\<close>; called without
  \<^verbatim>\<open>fp\<close> it raises before doing anything.\<close>

definition json_dump :: "json \<Rightarrow> unit option \<Rightarrow> exn + unit" where
  "json_dump obj fp =
     (case fp of
        None \<Rightarrow>
          Inl (TypeError (''dump() missing 1 required positional argument: '' @ quoted ''fp''))
      | Some f \<Rightarrow> Inr ())"

fun local_path_of :: "resolved \<Rightarrow> string" where
  "local_path_of (LocalPath p) = p"
| "local_path_of (WithManager p m) = p"

text \<open>\<^verbatim>\<open>post(self, path="")\<close>, lines 94 to 106, under \<^verbatim>\<open>@tornado.web.authenticated\<close>,
  which raises 403 for a POST without a current user. \<^verbatim>\<open>url2localpath(path)\<close> is
  called without the flag, so its value is the plain string.\<close>

definition post ::
  "world \<Rightarrow> handler \<Rightarrow> request \<Rightarrow> string \<Rightarrow> cache \<Rightarrow> (exn + response) \<times> cache" where
  "post w self req path c =
     (case current_user req of
        None \<Rightarrow> (Inl (HTTPError 403 None None), c)
      | Some u \<Rightarrow>
     (case get_json_body req of
        Inl e \<Rightarrow> (Inl e, c)
      | Inr body \<Rightarrow>
     (case getitem body ''drive_name'' of
        Inl e \<Rightarrow> (Inl e, c)
      | Inr drive_name \<Rightarrow>
     (case getitem body ''mount_drive'' of
        Inl e \<Rightarrow> (Inl e, c)
      | Inr mount_flag \<Rightarrow>
     (case url2localpath w (ident self) path None c of
        (Inl e, c') \<Rightarrow> (Inl e, c')
      | (Inr r, c') \<Rightarrow>
          (let local_path = local_path_of r;
               result =
                 (if truthy mount_flag
                  then mount_drive (handler_manager self) drive_name local_path
                  else unmount_drive (handler_manager self) drive_name local_path)
           in case result of
                Inl e \<Rightarrow> (Inl e, c')
              | Inr res \<Rightarrow>
                  (case json_dump res None of
                     Inl e \<Rightarrow> (Inl e, c')
                   | Inr u \<Rightarrow>
                       (Inr \<lparr>status = 200, content_type = None, payload = None\<rparr>, c'))))))))"

text \<open>A POST to \<^verbatim>\<open>mount-drive\<close> as the client sees it: the response the method
  finished, or the one written for the exception it raised.\<close>

definition serve_post ::
  "world \<Rightarrow> handler \<Rightarrow> request \<Rightarrow> string \<Rightarrow> cache \<Rightarrow> response \<times> cache" where
  "serve_post w self req path c =
     (case post w self req path c of
        (Inl e, c') \<Rightarrow> (handle_request_exception w e, c')
      | (Inr r, c') \<Rightarrow> (r, c'))"


subsection \<open>\<^verbatim>\<open>setup_handlers\<close>\<close>

definition NAMESPACE :: string where
  "NAMESPACE = ''jupyter-drives''"

datatype handler_class = ListJupyterDrivesHandler | MountJupyterDriveHandler

definition default_handlers :: "(string \<times> handler_class) list" where
  "default_handlers =
     [(''drives'', ListJupyterDrivesHandler), (''mount-drive'', MountJupyterDriveHandler)]"

datatype logger = Logger string

datatype level = ERROR | INFO | DEBUG

type_synonym log_record = "logger \<times> level \<times> string"

type_synonym handler_spec = "string \<times> handler_class \<times> logger \<times> manager"

text \<open>The web application: its settings and the handler table \<^verbatim>\<open>add_handlers\<close>
  appends to.\<close>

record web_app =
  settings :: "(string \<times> string) list"
  handlers :: "(string \<times> handler_spec list) list"

type_synonym config = json

record manager_factory =
  construct :: "config \<Rightarrow> exn + manager"
  class_repr :: string

record entry_point =
  load :: "exn + manager_factory"

text \<open>What \<^verbatim>\<open>setup_handlers\<close> imports from \<^verbatim>\<open>jupyter_drives/base.py\<close>, which is not
  among the sources, taken as parameters: the registry \<^verbatim>\<open>MANAGERS\<close> (its \<^verbatim>\<open>get\<close>), the
  provider that \<^verbatim>\<open>DrivesConfig(config=config).provider\<close> reads from the configuration,
  and \<open>repr_handlers\<close> for the text Python prints for the handler list.\<close>

record base =
  MANAGERS :: "string \<Rightarrow> entry_point option"
  DrivesConfig_provider :: "config \<Rightarrow> string"
  repr_handlers :: "handler_spec list \<Rightarrow> string"

definition strip_sep :: "string \<Rightarrow> string" where
  "strip_sep s = dropWhile (\<lambda>c. c = CHR ''/'') (rstrip_sep s)"

fun sep_join :: "string list \<Rightarrow> string" where
  "sep_join [] = []"
| "sep_join [x] = x"
| "sep_join (x # y # ys) = x @ ''/'' @ sep_join (y # ys)"

text \<open>\<^verbatim>\<open>jupyter_server.utils.url_path_join(*pieces)\<close>, always called here with two
  pieces.\<close>

definition url_path_join :: "string list \<Rightarrow> string" where
  "url_path_join pieces =
     (let initial = startswith_sep (hd pieces);
          final = endswith_sep (last pieces);
          stripped = map strip_sep pieces;
          result = sep_join (filter (\<lambda>s. s \<noteq> []) stripped);
          result = (if initial then ''/'' @ result else result);
          result = (if final then result @ ''/'' else result)
      in if result = ''//'' then ''/'' else result)"

definition host_pattern :: string where
  "host_pattern = ''.*$''"

text \<open>\<^verbatim>\<open>setup_handlers(web_app, config, log)\<close>, lines 113 to 144. The result is what
  the call raised or \<open>Inr ()\<close>, with the application and the log as it leaves them.
  \<^verbatim>\<open>logging.error\<close> writes to the root logger.\<close>

definition setup_handlers ::
  "base \<Rightarrow> web_app \<Rightarrow> config \<Rightarrow> logger option \<Rightarrow> log_record list
     \<Rightarrow> (exn + unit) \<times> web_app \<times> log_record list" where
  "setup_handlers b web_app config log0 lg =
     (case map_of (settings web_app) ''base_url'' of
        None \<Rightarrow> (Inl (KeyError ''base_url''), web_app, lg)
      | Some bu \<Rightarrow>
          (let base_url = url_path_join [bu, NAMESPACE];
               log = (case log0 of None \<Rightarrow> Logger ''jupyter_drives.handlers'' | Some l \<Rightarrow> l);
               provider = DrivesConfig_provider b config
           in case MANAGERS b provider of
                None \<Rightarrow>
                  (Inl NotImplementedError, web_app,
                   lg @ [(log, ERROR,
                          ''JupyterDrives Manager: No manager defined for provider ''
                            @ [CHR 0x27] @ provider @ [CHR 0x27] @ ''.'')])
              | Some ep \<Rightarrow>
                  (case load ep of
                     Inl e \<Rightarrow> (Inl e, web_app, lg)
                   | Inr factory \<Rightarrow>
                       (let lg1 = lg @ [(log, INFO,
                                         ''JupyterDrives Manager Class '' @ class_repr factory)]
                        in case construct factory config of
                             Inl err \<Rightarrow>
                               (Inl err, web_app,
                                if is_Exception err
                                then lg1 @ [(Logger ''root'', ERROR,
                                             ''JupyterDrives Manager Exception'')]
                                else lg1)
                           | Inr mgr \<Rightarrow>
                               (let hs = map (\<lambda>(pattern, h).
                                               (url_path_join [base_url, pattern], h, log, mgr))
                                             default_handlers;
                                    lg2 = lg1 @ [(log, DEBUG,
                                                  ''Jupyter-Drives Handlers: '' @ repr_handlers b hs)]
                                in (Inr (),
                                    web_app\<lparr>handlers := handlers web_app @ [(host_pattern, hs)]\<rparr>,
                                    lg2))))))"

subsection \<open>Notions of the specification\<close>

text \<open>Whether a local path lies within a root, read lexically as
  \<^verbatim>\<open>posixpath.normpath\<close> reads an absolute path: empty and \<^verbatim>\<open>.\<close> components are
  skipped, \<^verbatim>\<open>..\<close> removes the component before it (and is dropped at the top).\<close>

definition norm_step :: "string list \<Rightarrow> string \<Rightarrow> string list" where
  "norm_step comps c =
     (if c = [] \<or> c = ''.'' then comps
      else if c = ''..'' then butlast comps
      else comps @ [c])"

definition norm_components :: "string \<Rightarrow> string list" where
  "norm_components p = foldl norm_step [] (split_sep CHR ''/'' p)"

text \<open>The non-empty components of a path.\<close>

definition components :: "string \<Rightarrow> string list" where
  "components p = filter (\<lambda>c. c \<noteq> []) (split_sep CHR ''/'' p)"

definition within_root :: "string \<Rightarrow> string \<Rightarrow> bool" where
  "within_root root p =
     (startswith_sep root \<and> startswith_sep p
      \<and> prefix (norm_components root) (norm_components p))"

text \<open>A sequence of path segments that never climbs above the directory it starts in,
  \<open>d\<close> levels below which it already is.\<close>

fun stays_below :: "nat \<Rightarrow> string list \<Rightarrow> bool" where
  "stays_below d [] = True"
| "stays_below d (c # cs) =
     (if c = [] \<or> c = ''.'' then stays_below d cs
      else if c = ''..'' then 0 < d \<and> stays_below (d - 1) cs
      else stays_below (Suc d) cs)"

text \<open>The segments of a logical path as \<^verbatim>\<open>url2path\<close> decodes them.\<close>

definition decoded_segments :: "string \<Rightarrow> string list" where
  "decoded_segments path = map unquote (split_sep CHR ''/'' path)"

definition has_traversal :: "string \<Rightarrow> bool" where
  "has_traversal path = (''..'' \<in> set (split_sep CHR ''/'' path))"

text \<open>Step 2 of the resolution algorithm of the specification: with a composite
  content layer the backing manager found for the path and the path without the
  matched prefix, otherwise the default manager and the path as it is.\<close>

definition spec_select :: "world \<Rightarrow> nat \<Rightarrow> string \<Rightarrow> exn + (host_manager \<times> string \<times> string)" where
  "spec_select w self logical_path =
     (case contents_manager_of w self of
        Plain m \<Rightarrow> Inr (Plain m, root_dir m, logical_path)
      | Hybrid own managers \<Rightarrow>
          (case hybridcontents w of
             None \<Rightarrow> Inr (Hybrid own managers, root_dir own, logical_path)
           | Some find_backing_root \<Rightarrow>
               (case find_backing_root logical_path managers of
                  Inl e \<Rightarrow> Inl e
                | Inr (pfx, sub, stripped) \<Rightarrow> Inr (Plain sub, root_dir sub, stripped))))"

text \<open>Step 3, the home shorthand. A root that begins with \<^verbatim>\<open>~\<close> names a home
  directory: that of the user whose name stands between the \<^verbatim>\<open>~\<close> and the first
  separator, or of the current user when no name stands there (\<^verbatim>\<open>$HOME\<close>, and the
  password database when it is not set). The home directory, without the separators at
  its end, takes the place of the \<^verbatim>\<open>~\<close> and the name; when nothing is left the result
  is \<^verbatim>\<open>/\<close>. A root of any other form, or one that names an unknown user, stays as it
  is.\<close>

fun without_trailing_sep :: "string \<Rightarrow> string" where
  "without_trailing_sep [] = []"
| "without_trailing_sep (c # cs) =
     (let t = without_trailing_sep cs
      in if t = [] \<and> c = CHR ''/'' then [] else c # t)"

definition spec_expand_home :: "os_env \<Rightarrow> string \<Rightarrow> string" where
  "spec_expand_home env root =
     (case root of
        [] \<Rightarrow> []
      | c # after \<Rightarrow>
          if c = CHR ''~'' then
            (let name = takeWhile (\<lambda>x. x \<noteq> CHR ''/'') after;
                 rest = dropWhile (\<lambda>x. x \<noteq> CHR ''/'') after;
                 home = (if name = []
                         then (case environ_HOME env of
                                 Some h \<Rightarrow> Some h
                               | None \<Rightarrow> getpwuid_dir env)
                         else getpwnam_dir env name)
             in case home of
                  None \<Rightarrow> root
                | Some h \<Rightarrow>
                    (if without_trailing_sep h = [] \<and> rest = [] then ''/''
                     else without_trailing_sep h @ rest))
          else root)"

text \<open>Step 4, percent-decoding. The text is cut at every \<^verbatim>\<open>%\<close>; a piece that follows a
  \<^verbatim>\<open>%\<close> and begins with two hexadecimal digits stands for the byte they denote and
  the rest of the piece, any other piece keeps its \<^verbatim>\<open>%\<close>. The hexadecimal digits are
  \<^verbatim>\<open>0\<close> to \<^verbatim>\<open>9\<close> and \<^verbatim>\<open>a\<close> to \<^verbatim>\<open>f\<close> in either case.\<close>

definition hex_digit :: "char \<Rightarrow> nat option" where
  "hex_digit c =
     map_of (zip ''0123456789abcdef'' [0 ..< 16] @ zip ''ABCDEF'' [10 ..< 16]) c"

definition decode_item :: "string \<Rightarrow> string" where
  "decode_item item =
     (case item of
        a # b # rest \<Rightarrow>
          (case (hex_digit a, hex_digit b) of
             (Some x, Some y) \<Rightarrow> char_of (16 * x + y) # rest
           | _ \<Rightarrow> CHR ''%'' # item)
      | _ \<Rightarrow> CHR ''%'' # item)"

definition percent_decode :: "string \<Rightarrow> string" where
  "percent_decode s =
     (case split_sep CHR ''%'' s of
        [] \<Rightarrow> []
      | b # bs \<Rightarrow> b @ concat (map decode_item bs))"

text \<open>Step 4, joining. A segment is appended to the directory reached so far after
  exactly one separator; a segment that begins with a separator starts again from
  there.\<close>

definition spec_append_segment :: "string \<Rightarrow> string \<Rightarrow> string" where
  "spec_append_segment dir seg =
     (case seg of
        [] \<Rightarrow> (if dir = [] \<or> last dir = CHR ''/'' then dir else dir @ ''/'')
      | c # cs \<Rightarrow>
          if c = CHR ''/'' then seg
          else if dir = [] \<or> last dir = CHR ''/'' then dir @ seg
          else dir @ ''/'' @ seg)"

text \<open>Steps 3 to 5: expand the home shorthand in the root of the selected manager, cut
  the path at its separators, decode each segment and append it to the expanded root,
  return the local path, with the manager if asked for.\<close>

definition spec_resolve :: "world \<Rightarrow> nat \<Rightarrow> string \<Rightarrow> bool \<Rightarrow> exn + resolved" where
  "spec_resolve w self logical_path with_manager =
     (case spec_select w self logical_path of
        Inl e \<Rightarrow> Inl e
      | Inr (cm, root, p) \<Rightarrow>
          (let expanded = spec_expand_home (os w) root;
               local = foldl spec_append_segment expanded
                         (map percent_decode (split_sep CHR ''/'' p))
           in Inr (if with_manager then WithManager local cm else LocalPath local)))"

text \<open>A memo table that holds only values the function computes in the world \<open>w\<close>.\<close>

definition cache_sound :: "world \<Rightarrow> cache \<Rightarrow> bool" where
  "cache_sound w c =
     list_all (\<lambda>((self, path, flag), v).
        url2localpath_body w self path (case flag of None \<Rightarrow> False | Some b \<Rightarrow> b) = Inr v) c"

text \<open>A memo table as \<^verbatim>\<open>lru_cache\<close> keeps it: one entry per key, at most \<open>maxsize\<close>
  entries.\<close>

definition cache_wf :: "cache \<Rightarrow> bool" where
  "cache_wf c = (distinct (map fst c) \<and> length c \<le> maxsize)"


text \<open>The \<^verbatim>\<open>error\<close> entry of a response whose body is a JSON object.\<close>

definition error_field :: "response \<Rightarrow> json option" where
  "error_field r =
     (case payload r of
        Some (JObj kvs) \<Rightarrow> map_of kvs ''error''
      | _ \<Rightarrow> None)"

text \<open>The entry \<open>(k, v)\<close> is in the table, behind entries whose keys all lie in \<open>S\<close>.\<close>

definition entry_behind :: "cache_key \<Rightarrow> resolved \<Rightarrow> cache_key set \<Rightarrow> cache \<Rightarrow> bool" where
  "entry_behind k v S c =
     (cache_wf c \<and> (\<exists>pre rest. c = pre @ (k, v) # rest \<and> fst ` set pre \<subseteq> S))"

subsection \<open>Concrete surroundings for the examples\<close>

definition sample_os :: os_env where
  "sample_os =
     \<lparr>environ_HOME = Some ''/home/user'', getpwuid_dir = None, getpwnam_dir = (\<lambda>n. None)\<rparr>"

fun sample_traceback :: "exn \<Rightarrow> string list" where
  "sample_traceback (KeyError k) =
     [''Traceback (most recent call last): handlers.py, line 97, in post; '', ''KeyError: '' @ k]"
| "sample_traceback (TypeError m) =
     [''Traceback (most recent call last): handlers.py, line 106, in post; '', ''TypeError: '' @ m]"
| "sample_traceback e = [''Traceback (most recent call last): ...'']"

definition sample_world :: "string \<Rightarrow> world" where
  "sample_world root =
     \<lparr>hybridcontents = None, os = sample_os,
      contents_manager_of = (\<lambda>i. Plain \<lparr>root_dir = root\<rparr>),
      debug = False, format_exception = sample_traceback\<rparr>"

text \<open>A resolver for the composite case of the examples: the first segment selects the
  sub-manager, the empty prefix is the fallback.\<close>

definition sample_resolver :: resolver where
  "sample_resolver path managers =
     (case split_sep CHR ''/'' path of
        [] \<Rightarrow> Inl (HTTPError 404 None None)
      | first # rest \<Rightarrow>
          (case map_of managers first of
             Some m \<Rightarrow> Inr (first, m, sep_join rest)
           | None \<Rightarrow>
               (case map_of managers [] of
                  Some m \<Rightarrow> Inr ([], m, path)
                | None \<Rightarrow> Inl (HTTPError 404 None None))))"

definition hybrid_world :: world where
  "hybrid_world =
     \<lparr>hybridcontents = Some sample_resolver, os = sample_os,
      contents_manager_of =
        (\<lambda>i. Hybrid \<lparr>root_dir = ''/''\<rparr>
                [([], \<lparr>root_dir = ''~/notebooks''\<rparr>), (''s3'', \<lparr>root_dir = ''/mnt/s3''\<rparr>)]),
      debug = False, format_exception = sample_traceback\<rparr>"

text \<open>A host without \<^verbatim>\<open>$HOME\<close>, whose contents manager has its root in the home
  directory of a named user.\<close>

definition tilde_world :: world where
  "tilde_world =
     \<lparr>hybridcontents = None,
      os = \<lparr>environ_HOME = None, getpwuid_dir = Some ''/root/'',
            getpwnam_dir = (\<lambda>n. if n = ''alice'' then Some ''/home/alice/'' else None)\<rparr>,
      contents_manager_of = (\<lambda>i. Plain \<lparr>root_dir = ''~alice/work''\<rparr>),
      debug = False, format_exception = sample_traceback\<rparr>"

definition sample_manager :: manager where
  "sample_manager =
     \<lparr>mount_drive = (\<lambda>d p. Inr (JObj [(''drive_name'', d), (''local_path'', JStr p),
                                       (''status'', JStr ''mounted'')])),
      unmount_drive = (\<lambda>d p. Inr (JObj [(''drive_name'', d), (''local_path'', JStr p),
                                         (''status'', JStr ''unmounted'')]))\<rparr>"


definition sample_handler :: handler where
  "sample_handler = \<lparr>ident = 0, handler_manager = sample_manager\<rparr>"

definition sample_request :: "(string \<times> json) list \<Rightarrow> request" where
  "sample_request kvs = \<lparr>current_user = Some ''user'', request_body = Parsed (JObj kvs)\<rparr>"

definition failing_factory :: manager_factory where
  "failing_factory =
     \<lparr>construct = (\<lambda>c. Inl (OtherException ''bad credentials'')), class_repr = ''S3Manager''\<rparr>"

definition sample_base :: base where
  "sample_base =
     \<lparr>MANAGERS = (\<lambda>p. if p = ''local-test''
                       then Some \<lparr>load = Inr \<lparr>construct = (\<lambda>c. Inr sample_manager),
                                              class_repr = ''LocalTestManager''\<rparr>\<rparr>
                       else if p = ''broken'' then Some \<lparr>load = Inr failing_factory\<rparr>
                       else None),
      DrivesConfig_provider =
        (\<lambda>c. case c of
               JObj kvs \<Rightarrow> (case map_of kvs ''provider'' of Some (JStr p) \<Rightarrow> p | _ \<Rightarrow> ''s3'')
             | _ \<Rightarrow> ''s3''),
      repr_handlers = (\<lambda>hs. concat (map fst hs))\<rparr>"

definition sample_app :: web_app where
  "sample_app = \<lparr>settings = [(''base_url'', ''/'')], handlers = []\<rparr>"

section \<open>Path resolution\<close>

lemma split_sep_not_Nil: "split_sep s x \<noteq> []"
  by (induction x) (auto split: list.splits)

lemma rstrip_sep_Nil_iff: "rstrip_sep s = [] \<longleftrightarrow> (\<forall>x \<in> set s. x = CHR ''/'')"
  by (simp add: rstrip_sep_def dropWhile_eq_Nil_conv)

lemma rstrip_sep_Cons:
  "rstrip_sep (c # cs) = (if rstrip_sep cs = [] \<and> c = CHR ''/'' then [] else c # rstrip_sep cs)"
proof (cases "\<forall>x \<in> set cs. x = CHR ''/''")
  case True
  then have "rstrip_sep cs = []"
    by (simp add: rstrip_sep_Nil_iff)
  moreover have "rstrip_sep (c # cs) = (if c = CHR ''/'' then [] else [c])"
    using True by (simp add: rstrip_sep_def dropWhile_append)
  ultimately show ?thesis by simp
next
  case False
  then have ne: "rstrip_sep cs \<noteq> []"
    by (simp add: rstrip_sep_Nil_iff)
  have "rstrip_sep (c # cs) = c # rstrip_sep cs"
    using False by (auto simp: rstrip_sep_def dropWhile_append)
  with ne show ?thesis by simp
qed

lemma rstrip_sep_spec: "rstrip_sep s = without_trailing_sep s"
  by (induction s) (simp_all add: rstrip_sep_Cons Let_def, simp add: rstrip_sep_def)

lemma expanduser_spec: "expanduser env root = spec_expand_home env root"
proof (cases root)
  case Nil
  then show ?thesis by (simp add: expanduser_def spec_expand_home_def)
next
  case (Cons c after)
  show ?thesis
  proof (cases "c = CHR ''~''")
    case False
    with Cons show ?thesis by (simp add: expanduser_def spec_expand_home_def)
  next
    case True
    define name where "name = takeWhile (\<lambda>x. x \<noteq> CHR ''/'') after"
    define rest where "rest = dropWhile (\<lambda>x. x \<noteq> CHR ''/'') after"
    define home where
      "home = (if name = []
               then (case environ_HOME env of Some h \<Rightarrow> Some h | None \<Rightarrow> getpwuid_dir env)
               else getpwnam_dir env name)"
    have tk: "take (length name) after = name"
      unfolding name_def by (rule takeWhile_eq_take [symmetric])
    have dr: "drop (length name) after = rest"
      unfolding name_def rest_def by (rule dropWhile_eq_drop [symmetric])
    have re1: "name = [] \<Longrightarrow> (after = []) = (rest = [])"
      using dr by simp
    have re2: "(length after \<le> length name) = (rest = [])"
      using dr by auto
    have re3: "(\<forall>x \<in> set after. x \<noteq> CHR ''/'') = (rest = [])"
      unfolding rest_def by (simp add: dropWhile_eq_Nil_conv)
    have code: "expanduser env root
                  = (case home of
                       None \<Rightarrow> root
                     | Some h \<Rightarrow> (if rstrip_sep h = [] \<and> rest = [] then ''/''
                                  else rstrip_sep h @ rest))"
      unfolding Cons True
      by (simp add: expanduser_def Let_def name_def [symmetric] tk dr home_def re1 re2
               cong: if_cong option.case_cong)
    have spec: "spec_expand_home env root
                  = (case home of
                       None \<Rightarrow> root
                     | Some h \<Rightarrow> (if without_trailing_sep h = [] \<and> rest = [] then ''/''
                                  else without_trailing_sep h @ rest))"
      unfolding Cons True
      by (simp add: spec_expand_home_def Let_def name_def [symmetric] rest_def [symmetric]
                    home_def re3 cong: if_cong option.case_cong)
    show ?thesis
      by (cases home) (simp_all add: code spec rstrip_sep_spec)
  qed
qed

lemma hex_table:
  "zip ''0123456789abcdef'' [0 ..< 16] @ zip ''ABCDEF'' [10 ..< 16]
     = [(CHR ''0'', 0), (CHR ''1'', 1), (CHR ''2'', 2), (CHR ''3'', 3), (CHR ''4'', 4),
        (CHR ''5'', 5), (CHR ''6'', 6), (CHR ''7'', 7), (CHR ''8'', 8), (CHR ''9'', 9),
        (CHR ''a'', 10), (CHR ''b'', 11), (CHR ''c'', 12), (CHR ''d'', 13), (CHR ''e'', 14),
        (CHR ''f'', 15), (CHR ''A'', 10), (CHR ''B'', 11), (CHR ''C'', 12), (CHR ''D'', 13),
        (CHR ''E'', 14), (CHR ''F'', 15)]"
  by (simp add: upt_rec)

lemma hexval_spec: "hexval c = hex_digit c"
proof (cases c)
  case (Char b0 b1 b2 b3 b4 b5 b6 b7)
  show ?thesis
    unfolding Char hex_digit_def hex_table hexval_def
    by (cases b0; cases b1; cases b2; cases b3; cases b4; cases b5; cases b6; cases b7)
       simp_all
qed

lemma hexval_percent: "hexval CHR ''%'' = None"
  by (simp add: hexval_def)

lemma decode_item_hexval:
  "decode_item item =
     (case item of
        a # b # rest \<Rightarrow>
          (case (hexval a, hexval b) of
             (Some x, Some y) \<Rightarrow> char_of (16 * x + y) # rest
           | _ \<Rightarrow> CHR ''%'' # item)
      | _ \<Rightarrow> CHR ''%'' # item)"
  unfolding decode_item_def hexval_spec by (rule refl)

lemma percent_decode_Cons_other:
  "c \<noteq> CHR ''%'' \<Longrightarrow> percent_decode (c # t) = c # percent_decode t"
  using split_sep_not_Nil [of "CHR ''%''" t]
  by (cases "split_sep CHR ''%'' t") (simp_all add: percent_decode_def)

lemma unquote_spec: "unquote s = percent_decode s"
proof (induction "length s" arbitrary: s rule: less_induct)
  case less
  show ?case
  proof (cases s rule: unquote.cases)
    case 1
    then show ?thesis by (simp add: percent_decode_def)
  next
    case (2 c)
    then show ?thesis by (simp add: percent_decode_def decode_item_hexval)
  next
    case (3 c a)
    then show ?thesis by (simp add: percent_decode_def decode_item_hexval)
  next
    case (4 c a b rest)
    have ih1: "unquote rest = percent_decode rest"
      using less [of rest] 4 by simp
    have ih2: "unquote (a # b # rest) = percent_decode (a # b # rest)"
      using less [of "a # b # rest"] 4 by simp
    obtain u us where u: "split_sep CHR ''%'' rest = u # us"
      using split_sep_not_Nil [of "CHR ''%''" rest] by (cases "split_sep CHR ''%'' rest") auto
    show ?thesis
    proof (cases "c = CHR ''%''")
      case False
      then show ?thesis
        by (simp add: 4 ih2 percent_decode_Cons_other)
    next
      case True
      show ?thesis
      proof (cases "\<exists>x y. hexval a = Some x \<and> hexval b = Some y")
        case True
        then obtain x y where xy: "hexval a = Some x" "hexval b = Some y"
          by blast
        have ne: "a \<noteq> CHR ''%''" "b \<noteq> CHR ''%''"
          using xy hexval_percent by auto
        have "percent_decode (c # a # b # rest) = char_of (16 * x + y) # percent_decode rest"
          using \<open>c = CHR ''%''\<close> ne xy u by (simp add: percent_decode_def decode_item_hexval)
        moreover have "unquote (c # a # b # rest) = char_of (16 * x + y) # unquote rest"
          using \<open>c = CHR ''%''\<close> xy by simp
        ultimately show ?thesis
          by (simp add: 4 ih1)
      next
        case False
        have un: "unquote (c # a # b # rest) = CHR ''%'' # unquote (a # b # rest)"
          using \<open>c = CHR ''%''\<close> False by (cases "hexval a"; cases "hexval b") simp_all
        have "percent_decode (c # a # b # rest) = CHR ''%'' # percent_decode (a # b # rest)"
          using \<open>c = CHR ''%''\<close> False u
          by (cases "hexval a"; cases "hexval b")
             (simp_all add: percent_decode_def decode_item_hexval)
        with un show ?thesis
          by (simp add: 4 ih2)
      qed
    qed
  qed
qed

lemma join_step_spec: "join_step dir seg = spec_append_segment dir seg"
  by (cases seg) (simp_all add: join_step_def spec_append_segment_def startswith_sep_def
                                endswith_sep_def)

lemma join_step_assoc:
  "join_step r (join_step a b) = join_step (join_step r a) b"
  by (cases a; cases r) (auto simp: join_step_def startswith_sep_def endswith_sep_def)

lemma join_step_foldl:
  "join_step r (foldl join_step a ps) = foldl join_step (join_step r a) ps"
proof (induction ps arbitrary: a)
  case Nil
  show ?case by simp
next
  case (Cons b ps)
  have "join_step r (foldl join_step (join_step a b) ps)
          = foldl join_step (join_step r (join_step a b)) ps"
    by (rule Cons.IH)
  then show ?case
    by (simp add: join_step_assoc)
qed

lemma join_url2path:
  "join r [url2path p] = foldl join_step r (map unquote (split_sep CHR ''/'' p))"
proof -
  obtain a ps where ps: "map unquote (split_sep CHR ''/'' p) = a # ps"
    using split_sep_not_Nil [of "CHR ''/''" p]
    by (cases "map unquote (split_sep CHR ''/'' p)") auto
  have "join r [url2path p] = join_step r (foldl join_step a ps)"
    by (simp add: url2path_def ps join_def)
  also have "\<dots> = foldl join_step (join_step r a) ps"
    by (rule join_step_foldl)
  finally show ?thesis
    by (simp add: ps)
qed

lemma join_url2path_spec:
  "join r [url2path p]
     = foldl spec_append_segment r (map percent_decode (split_sep CHR ''/'' p))"
proof -
  have f: "join_step = spec_append_segment"
    by (intro ext) (rule join_step_spec)
  have g: "unquote = percent_decode"
    by (intro ext) (rule unquote_spec)
  show ?thesis
    by (simp only: join_url2path f g)
qed

lemma url2localpath_body_selected:
  assumes "spec_select w self path = Inr (cm, root, p)"
  shows "url2localpath_body w self path b
           = Inr (if b then WithManager (join (expanduser (os w) root) [url2path p]) cm
                  else LocalPath (join (expanduser (os w) root) [url2path p]))"
  using assms
  by (auto simp: url2localpath_body_def spec_select_def Let_def
           split: host_manager.splits option.splits sum.splits prod.splits)

lemma url2localpath_body_failed:
  assumes "spec_select w self path = Inl e"
  shows "url2localpath_body w self path b = Inl e"
  using assms
  by (auto simp: url2localpath_body_def spec_select_def Let_def
           split: host_manager.splits option.splits sum.splits prod.splits)

lemma url2localpath_body_resolve:
  "url2localpath_body w self path b = spec_resolve w self path b"
proof (cases "spec_select w self path")
  case (Inl e)
  then show ?thesis
    by (simp add: url2localpath_body_failed spec_resolve_def)
next
  case (Inr t)
  obtain cm root p where t: "t = (cm, root, p)"
    by (cases t) auto
  have sel: "spec_select w self path = Inr (cm, root, p)"
    using Inr t by simp
  have "spec_resolve w self path b
          = Inr (if b then WithManager (join (expanduser (os w) root) [url2path p]) cm
                 else LocalPath (join (expanduser (os w) root) [url2path p]))"
    by (simp add: spec_resolve_def sel Let_def expanduser_spec join_url2path_spec)
  then show ?thesis
    by (simp only: url2localpath_body_selected [OF sel])
qed

text \<open>
  C7. For every logical path the body of \<^verbatim>\<open>url2localpath\<close> computes what the
  resolution algorithm of the specification computes: (a) the manager is the sub-manager
  found for the path when the contents manager is a composite, with the matched prefix
  stripped from the path, and the default one otherwise; (b) the home shorthand in the
  root directory of that manager is expanded; (c) the segments of the path are
  percent-decoded and joined onto the expanded root. A call of the memoised function
  that finds no entry for its arguments returns that value, and the value is
  \<^verbatim>\<open>os.path.join(expanduser(cm.root_dir), url2path(path))\<close> for the selected manager
  and the path left for it.
\<close>

theorem url2localpath_follows_spec_resolve:
  "url2localpath_body w self path b = spec_resolve w self path b
   \<and> (map_of c (self, path, flag) = None \<longrightarrow>
        fst (url2localpath w self path flag c)
          = spec_resolve w self path (case flag of None \<Rightarrow> False | Some b \<Rightarrow> b))
   \<and> (\<forall>cm root p. spec_select w self path = Inr (cm, root, p) \<longrightarrow>
        url2localpath_body w self path b
          = Inr (if b then WithManager (join (expanduser (os w) root) [url2path p]) cm
                 else LocalPath (join (expanduser (os w) root) [url2path p])))"
proof (intro conjI allI impI)
  show "url2localpath_body w self path b = spec_resolve w self path b"
    by (rule url2localpath_body_resolve)
next
  assume "map_of c (self, path, flag) = None"
  then show "fst (url2localpath w self path flag c)
               = spec_resolve w self path (case flag of None \<Rightarrow> False | Some b \<Rightarrow> b)"
    by (simp add: url2localpath_body_resolve [symmetric] url2localpath_def Let_def
             split: sum.splits)
next
  fix cm root p
  assume "spec_select w self path = Inr (cm, root, p)"
  then show "url2localpath_body w self path b
               = Inr (if b then WithManager (join (expanduser (os w) root) [url2path p]) cm
                      else LocalPath (join (expanduser (os w) root) [url2path p]))"
    by (rule url2localpath_body_selected)
qed

theorem url2localpath_follows_spec_resolve_witness:
  "fst (url2localpath hybrid_world 0 ''docs/a%20b'' None [])
     = Inr (LocalPath ''/home/user/notebooks/docs/a b'')
   \<and> fst (url2localpath hybrid_world 0 ''s3/bucket/a%2fb'' None [])
       = Inr (LocalPath ''/mnt/s3/bucket/a/b'')
   \<and> url2localpath_body tilde_world 0 ''x/%7Ey'' True
       = Inr (WithManager ''/home/alice/work/x/~y'' (Plain \<lparr>root_dir = ''~alice/work''\<rparr>))
   \<and> join (expanduser (os tilde_world) ''~alice/work'') [url2path ''x/%7Ey'']
       = ''/home/alice/work/x/~y''"
proof -
  have s1: "spec_resolve hybrid_world 0 ''docs/a%20b'' False
              = Inr (LocalPath ''/home/user/notebooks/docs/a b'')"
    by code_simp
  have s2: "spec_resolve hybrid_world 0 ''s3/bucket/a%2fb'' False
              = Inr (LocalPath ''/mnt/s3/bucket/a/b'')"
    by code_simp
  have s3: "spec_resolve tilde_world 0 ''x/%7Ey'' True
              = Inr (WithManager ''/home/alice/work/x/~y'' (Plain \<lparr>root_dir = ''~alice/work''\<rparr>))"
    by code_simp
  have sel: "spec_select tilde_world 0 ''x/%7Ey''
               = Inr (Plain \<lparr>root_dir = ''~alice/work''\<rparr>, ''~alice/work'', ''x/%7Ey'')"
    by (simp add: spec_select_def tilde_world_def)
  have r1: "fst (url2localpath hybrid_world 0 ''docs/a%20b'' None [])
              = Inr (LocalPath ''/home/user/notebooks/docs/a b'')"
    using url2localpath_follows_spec_resolve
            [of hybrid_world 0 "''docs/a%20b''" False "[]" None] s1
    by simp
  have r2: "fst (url2localpath hybrid_world 0 ''s3/bucket/a%2fb'' None [])
              = Inr (LocalPath ''/mnt/s3/bucket/a/b'')"
    using url2localpath_follows_spec_resolve
            [of hybrid_world 0 "''s3/bucket/a%2fb''" False "[]" None] s2
    by simp
  have r3: "url2localpath_body tilde_world 0 ''x/%7Ey'' True
              = Inr (WithManager ''/home/alice/work/x/~y''
                       (Plain \<lparr>root_dir = ''~alice/work''\<rparr>))"
    using url2localpath_follows_spec_resolve
            [of tilde_world 0 "''x/%7Ey''" True "[]" None] s3
    by simp
  have "url2localpath_body tilde_world 0 ''x/%7Ey'' True
          = Inr (WithManager
                   (join (expanduser (os tilde_world) ''~alice/work'') [url2path ''x/%7Ey''])
                   (Plain \<lparr>root_dir = ''~alice/work''\<rparr>))"
    using url2localpath_follows_spec_resolve
            [of tilde_world 0 "''x/%7Ey''" True "[]" None,
             THEN conjunct2, THEN conjunct2, rule_format, OF sel]
    by simp
  with r3 have r4: "join (expanduser (os tilde_world) ''~alice/work'') [url2path ''x/%7Ey'']
                      = ''/home/alice/work/x/~y''"
    by simp
  show ?thesis
    by (intro conjI r1 r2 r3 r4)
qed

lemma split_sep_append:
  "split_sep s (a @ s # b) = split_sep s a @ split_sep s b"
proof (induction a)
  case Nil
  show ?case by simp
next
  case (Cons c a)
  obtain u us where u: "split_sep s a = u # us"
    using split_sep_not_Nil [of s a] by (cases "split_sep s a") auto
  with Cons show ?case by simp
qed

lemma url2path_empty: "url2path [] = []"
  by (simp add: url2path_def join_def)

lemma norm_components_trailing_sep:
  "norm_components (r @ ''/'') = norm_components r"
  using split_sep_append [of "CHR ''/''" r "[]"]
  by (simp add: norm_components_def norm_step_def)

text \<open>
  C8. The empty logical path resolves to the root of the selected manager: the value is
  the expanded root directory, followed by one separator unless the root is empty or
  ends in one already (\<^verbatim>\<open>os.path.join(root, "")\<close>), so it has the components of the
  root and no other.
\<close>

theorem empty_path_resolves_to_root:
  assumes "spec_select w self [] = Inr (cm, root, [])"
  shows "\<exists>lp. url2localpath_body w self [] False = Inr (LocalPath lp)
            \<and> (map_of c (self, [], None) = None \<longrightarrow>
                 fst (url2localpath w self [] None c) = Inr (LocalPath lp))
            \<and> (lp = expanduser (os w) root \<or> lp = expanduser (os w) root @ ''/'')
            \<and> startswith_sep lp = startswith_sep (expanduser (os w) root)
            \<and> norm_components lp = norm_components (expanduser (os w) root)"
proof -
  let ?r = "expanduser (os w) root"
  let ?lp = "join ?r [url2path []]"
  have body: "url2localpath_body w self [] False = Inr (LocalPath ?lp)"
    using url2localpath_body_selected [OF assms, of False] by simp
  have memo: "map_of c (self, [], None) = None \<longrightarrow>
                fst (url2localpath w self [] None c) = Inr (LocalPath ?lp)"
    using body by (simp add: url2localpath_def)
  have lp: "?lp = (if ?r = [] \<or> endswith_sep ?r then ?r else ?r @ ''/'')"
    by (simp add: url2path_empty join_def join_step_def startswith_sep_def)
  have shape: "?lp = ?r \<or> ?lp = ?r @ ''/''"
    using lp by presburger
  have abs: "startswith_sep ?lp = startswith_sep ?r"
    using lp by (cases ?r) (auto simp: startswith_sep_def)
  have comps: "norm_components ?lp = norm_components ?r"
    using shape norm_components_trailing_sep [of ?r] by auto
  show ?thesis
    by (intro exI [of _ ?lp] conjI body memo shape abs comps)
qed

theorem empty_path_resolves_to_root_witness:
  "url2localpath_body hybrid_world 0 [] False = Inr (LocalPath ''/home/user/notebooks/'')
   \<and> norm_components ''/home/user/notebooks/''
       = norm_components (expanduser (os hybrid_world) ''~/notebooks'')"
proof -
  have sel: "spec_select hybrid_world 0 []
               = Inr (Plain \<lparr>root_dir = ''~/notebooks''\<rparr>, ''~/notebooks'', [])"
    by code_simp
  have body: "url2localpath_body hybrid_world 0 [] False
                = Inr (LocalPath ''/home/user/notebooks/'')"
    by code_simp
  show ?thesis
    using empty_path_resolves_to_root [OF sel, of "[]"] body by auto
qed

section \<open>Startup\<close>

text \<open>
  C5. When the registry has no entry for the configured provider, \<^verbatim>\<open>setup_handlers\<close>
  raises at startup and leaves the web application as it was, so no handler is
  installed. Once the base URL has been read, the exception is
  \<^verbatim>\<open>NotImplementedError\<close> and the diagnostic naming the provider has been logged as an
  error.
\<close>

theorem unknown_provider_fails_setup:
  assumes "MANAGERS b (DrivesConfig_provider b config) = None"
  shows "\<exists>e lg'. setup_handlers b app config log0 lg = (Inl e, app, lg')
           \<and> (\<forall>bu. map_of (settings app) ''base_url'' = Some bu \<longrightarrow>
                 e = NotImplementedError
                 \<and> lg' = lg @ [(case log0 of None \<Rightarrow> Logger ''jupyter_drives.handlers''
                                              | Some l \<Rightarrow> l,
                                 ERROR,
                                 ''JupyterDrives Manager: No manager defined for provider ''
                                   @ [CHR 0x27] @ DrivesConfig_provider b config
                                   @ [CHR 0x27] @ ''.'')])"
  using assms
  by (cases "map_of (settings app) ''base_url''") (simp_all add: setup_handlers_def Let_def)

theorem unknown_provider_fails_setup_witness:
  "\<exists>lg'. setup_handlers sample_base sample_app (JObj [(''provider'', JStr ''s3'')]) None []
           = (Inl NotImplementedError, sample_app, lg')"
proof -
  have none: "MANAGERS sample_base
                (DrivesConfig_provider sample_base (JObj [(''provider'', JStr ''s3'')])) = None"
    by (simp add: sample_base_def)
  have url: "map_of (settings sample_app) ''base_url'' = Some ''/''"
    by (simp add: sample_app_def)
  show ?thesis
    using unknown_provider_fails_setup [OF none, of sample_app None "[]"] url by auto
qed

text \<open>
  C6. When the factory of the configured provider raises while constructing the
  manager, \<^verbatim>\<open>setup_handlers\<close> raises that same exception and leaves the web application
  as it was: the failure is not kept for the first request.
\<close>

theorem factory_failure_propagates:
  assumes "map_of (settings app) ''base_url'' = Some bu"
    and "MANAGERS b (DrivesConfig_provider b config) = Some ep"
    and "load ep = Inr factory"
    and "construct factory config = Inl err"
  shows "\<exists>lg'. setup_handlers b app config log0 lg = (Inl err, app, lg')"
  using assms by (simp add: setup_handlers_def Let_def)

theorem factory_failure_propagates_witness:
  "\<exists>lg'. setup_handlers sample_base sample_app (JObj [(''provider'', JStr ''broken'')]) None []
           = (Inl (OtherException ''bad credentials''), sample_app, lg')"
proof -
  have url: "map_of (settings sample_app) ''base_url'' = Some ''/''"
    by (simp add: sample_app_def)
  have ep: "MANAGERS sample_base
              (DrivesConfig_provider sample_base (JObj [(''provider'', JStr ''broken'')]))
              = Some \<lparr>load = Inr failing_factory\<rparr>"
    by (simp add: sample_base_def)
  have ld: "load \<lparr>load = Inr failing_factory\<rparr> = Inr failing_factory"
    by simp
  have fails: "construct failing_factory (JObj [(''provider'', JStr ''broken'')])
                 = Inl (OtherException ''bad credentials'')"
    by (simp add: failing_factory_def)
  show ?thesis
    using factory_failure_propagates [OF url ep ld fails, of None "[]"] .
qed

section \<open>Error responses and the mount request\<close>

text \<open>
  C2, as the specification states it, fails: with the debug setting off, the response
  written for a \<^verbatim>\<open>KeyError\<close> carries the whole formatted traceback as its error.
\<close>

theorem write_error_leaks_traceback:
  "\<not> debug (sample_world ''/srv/root'')
   \<and> \<not> is_HTTPError (KeyError ''drive_name'')
   \<and> error_field (write_error (sample_world ''/srv/root'') 500 (Some (KeyError ''drive_name'')))
       = Some (JStr (concat (format_exception (sample_world ''/srv/root'')
                               (KeyError ''drive_name''))))"
  by (simp add: sample_world_def write_error_def error_field_def)

text \<open>
  C2, amended. For every exception that is not an \<^verbatim>\<open>HTTPError\<close>, \<^verbatim>\<open>write_error\<close>
  answers with the JSON object whose only entry is \<^verbatim>\<open>error\<close>, holding the whole
  formatted traceback, and the debug setting has no part in it.
\<close>

theorem write_error_internal_failure:
  assumes "\<not> is_HTTPError e"
  shows "write_error w sc (Some e)
           = \<lparr>status = sc, content_type = Some ''application/json'',
              payload = Some (JObj [(''error'', JStr (concat (format_exception w e)))])\<rparr>
         \<and> write_error (w\<lparr>debug := d\<rparr>) sc (Some e) = write_error w sc (Some e)"
  using assms by (cases e) (simp_all add: write_error_def)

theorem write_error_internal_failure_witness:
  "write_error (sample_world ''/srv/root'') 500 (Some (KeyError ''drive_name''))
     = \<lparr>status = 500, content_type = Some ''application/json'',
        payload = Some (JObj [(''error'', JStr (concat (sample_traceback (KeyError ''drive_name''))))])\<rparr>"
proof -
  have h: "\<not> is_HTTPError (KeyError ''drive_name'')"
    by simp
  show ?thesis
    using write_error_internal_failure [OF h, of "sample_world ''/srv/root''" 500 False]
    by (simp add: sample_world_def)
qed

lemma post_always_raises: "\<exists>e. fst (post w self req path c) = Inl e"
  by (simp add: post_def json_dump_def Let_def
           split: option.splits sum.splits prod.splits)

text \<open>
  C3: a well-formed mount request from an authenticated user, which the manager serves
  without error. \<^verbatim>\<open>json.dump(result)\<close> lacks its file argument, so \<^verbatim>\<open>post\<close> raises
  \<^verbatim>\<open>TypeError\<close> after the drive has been mounted, and the client receives status 500.
\<close>

theorem post_success_raises_TypeError:
  "mount_drive sample_manager (JStr ''bucket-a'') ''/srv/root/''
     = Inr (JObj [(''drive_name'', JStr ''bucket-a''), (''local_path'', JStr ''/srv/root/''),
                  (''status'', JStr ''mounted'')])
   \<and> fst (post (sample_world ''/srv/root'') sample_handler
            (sample_request [(''drive_name'', JStr ''bucket-a''), (''mount_drive'', JBool True)])
            [] [])
       = Inl (TypeError (''dump() missing 1 required positional argument: '' @ quoted ''fp''))
   \<and> status (fst (serve_post (sample_world ''/srv/root'') sample_handler
            (sample_request [(''drive_name'', JStr ''bucket-a''), (''mount_drive'', JBool True)])
            [] [])) = 500"
  by code_simp




section \<open>Memoisation\<close>

lemma cache_sound_lookup:
  assumes "cache_sound w c" and "map_of c (self, path, flag) = Some v"
  shows "url2localpath_body w self path (case flag of None \<Rightarrow> False | Some b \<Rightarrow> b) = Inr v"
proof -
  have "((self, path, flag), v) \<in> set c"
    using assms(2) by (rule map_of_SomeD)
  with assms(1) show ?thesis
    by (auto simp: cache_sound_def list_all_iff)
qed

lemma cache_sound_result:
  assumes "cache_sound w c"
  shows "fst (url2localpath w self path flag c)
           = url2localpath_body w self path (case flag of None \<Rightarrow> False | Some b \<Rightarrow> b)"
proof (cases "map_of c (self, path, flag)")
  case None
  then show ?thesis
    by (simp add: url2localpath_def Let_def split: sum.splits)
next
  case (Some v)
  with cache_sound_lookup [OF assms Some] show ?thesis
    by (simp add: url2localpath_def Let_def)
qed





lemma take_append_take: "take n (a @ take n b) = take n (a @ b)"
  by (simp add: min_def)

lemma calls_on_Cons:
  "calls_on w path flag (s # ss) = (w, s, path, flag) # calls_on w path flag ss"
  by (simp add: calls_on_def)

lemma run_calls_on_fresh:
  assumes "distinct selves"
    and "\<forall>s \<in> set selves. (s, path, flag) \<notin> fst ` set c"
    and "\<forall>s \<in> set selves.
           url2localpath_body w s path (case flag of None \<Rightarrow> False | Some b \<Rightarrow> b) = Inr v"
    and "length c \<le> maxsize"
  shows "run_calls (calls_on w path flag selves) c
           = take maxsize (rev (map (\<lambda>s. ((s, path, flag), v)) selves) @ c)"
  using assms
proof (induction selves arbitrary: c)
  case Nil
  then show ?case by (simp add: calls_on_def)
next
  case (Cons s ss)
  let ?k = "(s, path, flag)"
  let ?c' = "take maxsize ((?k, v) # c)"
  have "?k \<notin> fst ` set c"
    by (rule bspec [OF Cons.prems(2)]) (rule list.set_intros(1))
  then have miss: "map_of c ?k = None"
    by (simp add: map_of_eq_None_iff)
  have body: "url2localpath_body w s path (case flag of None \<Rightarrow> False | Some b \<Rightarrow> b) = Inr v"
    by (rule bspec [OF Cons.prems(3)]) (rule list.set_intros(1))
  have step: "snd (url2localpath w s path flag c) = ?c'"
    using miss body by (simp add: url2localpath_def Let_def)
  have "set ?c' \<subseteq> insert (?k, v) (set c)"
    using set_take_subset [of maxsize "(?k, v) # c"] by simp
  then have sub: "fst ` set ?c' \<subseteq> insert ?k (fst ` set c)"
    by (metis image_insert image_mono fst_conv)
  have notin: "s \<notin> set ss"
    using Cons.prems(1) by (simp only: distinct.simps) simp
  have disj: "\<forall>s' \<in> set ss. (s', path, flag) \<notin> fst ` set ?c'"
  proof
    fix s'
    assume m: "s' \<in> set ss"
    have ne: "(s', path, flag) \<noteq> ?k"
    proof
      assume "(s', path, flag) = ?k"
      then have "s' = s"
        by (simp only: prod.inject)
      with m notin show False
        by (simp only:)
    qed
    have old: "(s', path, flag) \<notin> fst ` set c"
      by (rule bspec [OF Cons.prems(2)]) (rule list.set_intros(2) [OF m])
    show "(s', path, flag) \<notin> fst ` set ?c'"
    proof
      assume "(s', path, flag) \<in> fst ` set ?c'"
      with sub have "(s', path, flag) \<in> insert ?k (fst ` set c)"
        by (rule subsetD)
      then have "(s', path, flag) = ?k \<or> (s', path, flag) \<in> fst ` set c"
        by (simp only: insert_iff)
      then show False
      proof
        assume "(s', path, flag) = ?k"
        with ne show False by (rule notE)
      next
        assume "(s', path, flag) \<in> fst ` set c"
        with old show False by (rule notE)
      qed
    qed
  qed
  have d': "distinct ss"
    using Cons.prems(1) by (simp only: distinct.simps)
  have b': "\<forall>s' \<in> set ss.
              url2localpath_body w s' path (case flag of None \<Rightarrow> False | Some b \<Rightarrow> b) = Inr v"
  proof
    fix s'
    assume "s' \<in> set ss"
    then have "s' \<in> set (s # ss)"
      by (rule list.set_intros(2))
    with Cons.prems(3)
    show "url2localpath_body w s' path (case flag of None \<Rightarrow> False | Some b \<Rightarrow> b) = Inr v"
      by (rule bspec)
  qed
  have l': "length ?c' \<le> maxsize"
    by simp
  have unfold: "run_calls (calls_on w path flag (s # ss)) c
                  = run_calls (calls_on w path flag ss) ?c'"
    by (simp only: calls_on_Cons run_calls.simps step)
  have entries: "rev (map (\<lambda>s. ((s, path, flag), v)) (s # ss)) @ c
                   = rev (map (\<lambda>s. ((s, path, flag), v)) ss) @ (?k, v) # c"
    by simp
  have "run_calls (calls_on w path flag ss) ?c'
          = take maxsize (rev (map (\<lambda>s. ((s, path, flag), v)) ss) @ ?c')"
    by (rule Cons.IH [OF d' disj b' l'])
  also have "\<dots> = take maxsize (rev (map (\<lambda>s. ((s, path, flag), v)) ss) @ (?k, v) # c)"
    by (rule take_append_take)
  finally show ?case
    by (simp only: unfold entries)
qed

lemma miss_result:
  assumes "map_of c (self, path, flag) = None"
  shows "fst (url2localpath w self path flag c)
           = url2localpath_body w self path (case flag of None \<Rightarrow> False | Some b \<Rightarrow> b)"
  using assms by (simp add: url2localpath_def Let_def split: sum.splits)

lemma body_on_any_instance:
  "url2localpath_body (sample_world root) self ''x'' False
     = Inr (LocalPath (join (expanduser sample_os root) [''x'']))"
  by (simp add: url2localpath_body_def sample_world_def url2path_def join_def)

lemma sample_join_a: "join (expanduser sample_os ''/srv/a'') [''x''] = ''/srv/a/x''"
  by (simp add: expanduser_def join_def join_step_def startswith_sep_def endswith_sep_def)

lemma sample_join_b: "join (expanduser sample_os ''/srv/b'') [''x''] = ''/srv/b/x''"
  by (simp add: expanduser_def join_def join_step_def startswith_sep_def endswith_sep_def)

lemma sample_eviction:
  assumes "distinct ns" and "0 \<notin> set ns" and "length ns = maxsize"
  shows "fst (url2localpath (sample_world ''/srv/b'') 0 ''x'' None
               (run_calls (calls_on (sample_world ''/srv/a'') ''x'' None ns)
                  [((0, ''x'', None), LocalPath ''/srv/a/x'')]))
           = Inr (LocalPath ''/srv/b/x'')"
proof -
  let ?cs = "calls_on (sample_world ''/srv/a'') ''x'' None ns"
  let ?va = "LocalPath ''/srv/a/x''"
  let ?c1 = "[((0::nat, ''x'', None :: bool option), ?va)]"
  let ?new = "rev (map (\<lambda>s. ((s, ''x'', None :: bool option), ?va)) ns)"
  have disj: "\<forall>s \<in> set ns. (s, ''x'', None) \<notin> fst ` set ?c1"
  proof
    fix s
    assume "s \<in> set ns"
    with assms(2) have "s \<noteq> 0"
      by metis
    then show "(s, ''x'', None) \<notin> fst ` set ?c1"
      by simp
  qed
  have bodies: "\<forall>s \<in> set ns.
                  url2localpath_body (sample_world ''/srv/a'') s ''x''
                    (case None of None \<Rightarrow> False | Some b \<Rightarrow> b) = Inr ?va"
    by (simp add: body_on_any_instance sample_join_a)
  have len: "length ?c1 \<le> maxsize"
    by (simp add: maxsize_def)
  have "run_calls ?cs ?c1 = take maxsize (?new @ ?c1)"
    using assms(1) disj bodies len by (rule run_calls_on_fresh)
  also have "\<dots> = ?new"
    using assms(3) by simp
  finally have run: "run_calls ?cs ?c1 = ?new" .
  have "(0, ''x'', None) \<notin> fst ` set ?new"
  proof
    assume "(0, ''x'', None) \<in> fst ` set ?new"
    then have "0 \<in> set ns"
      by (auto simp: image_iff)
    with assms(2) show False
      by (rule notE)
  qed
  then have "map_of ?new (0, ''x'', None) = None"
    by (rule iffD2 [OF map_of_eq_None_iff])
  then have gone: "map_of (run_calls ?cs ?c1) (0, ''x'', None) = None"
    by (simp only: run)
  have "fst (url2localpath (sample_world ''/srv/b'') 0 ''x'' None (run_calls ?cs ?c1))
          = url2localpath_body (sample_world ''/srv/b'') 0 ''x'' False"
    using miss_result [OF gone] by (simp only: option.case)
  also have "\<dots> = Inr (LocalPath (join (expanduser sample_os ''/srv/b'') [''x'']))"
    by (rule body_on_any_instance)
  also have "\<dots> = Inr (LocalPath ''/srv/b/x'')"
    by (simp only: sample_join_b)
  finally show ?thesis .
qed

lemma sample_first_call:
  "url2localpath (sample_world ''/srv/a'') 0 ''x'' None []
     = (Inr (LocalPath ''/srv/a/x''), [((0, ''x'', None), LocalPath ''/srv/a/x'')])"
  using body_on_any_instance [of "''/srv/a''" 0] sample_join_a
  by (simp add: url2localpath_def maxsize_def)

text \<open>
  C10, as stated, fails: \<^verbatim>\<open>lru_cache()\<close> keeps 128 entries. After a first call for
  \<^verbatim>\<open>x\<close> on handler 0 and the same call on each of 128 other handler instances, the
  entry of the first call is gone, and the call on handler 0 is computed again, from the
  root directory of that moment.
\<close>

theorem cached_value_evicted_after_128:
  "fst (url2localpath (sample_world ''/srv/a'') 0 ''x'' None []) = Inr (LocalPath ''/srv/a/x'')
   \<and> fst (url2localpath (sample_world ''/srv/b'') 0 ''x'' None
           (run_calls (calls_on (sample_world ''/srv/a'') ''x'' None [1..<129])
              (snd (url2localpath (sample_world ''/srv/a'') 0 ''x'' None []))))
       = Inr (LocalPath ''/srv/b/x'')"
proof -
  have d: "distinct [1..<129::nat]"
    by (rule distinct_upt)
  have z: "(0::nat) \<notin> set [1..<129]"
    by simp
  have l: "length [1..<129::nat] = maxsize"
    by (simp add: maxsize_def)
  have f1: "fst (url2localpath (sample_world ''/srv/a'') 0 ''x'' None [])
              = Inr (LocalPath ''/srv/a/x'')"
    by (simp only: sample_first_call fst_conv)
  have s1: "snd (url2localpath (sample_world ''/srv/a'') 0 ''x'' None [])
              = [((0, ''x'', None), LocalPath ''/srv/a/x'')]"
    by (simp only: sample_first_call snd_conv)
  show ?thesis
    unfolding s1 by (intro conjI f1 sample_eviction [OF d z l])
qed

lemma map_of_behind:
  assumes "distinct (map fst (pre @ (k, v) # rest))"
  shows "map_of (pre @ (k, v) # rest) k = Some v"
proof -
  have "k \<notin> fst ` set pre"
    using assms by auto
  then have "map_of pre k = None"
    by (simp add: map_of_eq_None_iff)
  then show ?thesis
    by (simp add: map_add_def)
qed

lemma entry_behind_lookup:
  assumes "entry_behind k v S c"
  shows "map_of c k = Some v"
  using assms map_of_behind by (auto simp: entry_behind_def cache_wf_def)

lemma entry_behind_hit:
  assumes "entry_behind (self, path, flag) v S c"
  shows "fst (url2localpath w self path flag c) = Inr v"
  using entry_behind_lookup [OF assms] by (simp add: url2localpath_def Let_def)

lemma entry_behind_mono:
  assumes "entry_behind k v S c" and "S \<subseteq> T"
  shows "entry_behind k v T c"
  using assms unfolding entry_behind_def by blast

lemma hit_keeps_wf:
  assumes "cache_wf c" and "map_of c k' = Some v'"
  shows "cache_wf ((k', v') # filter (\<lambda>e. fst e \<noteq> k') c)"
proof -
  have mem: "(k', v') \<in> set c"
    using assms(2) by (rule map_of_SomeD)
  then have "length (filter (\<lambda>e. fst e \<noteq> k') c) < length c"
    by (intro length_filter_less [of "(k', v')"]) auto
  moreover have "distinct (map fst (filter (\<lambda>e. fst e \<noteq> k') c))"
    using assms(1) by (simp add: cache_wf_def distinct_map_filter)
  moreover have "k' \<notin> fst ` set (filter (\<lambda>e. fst e \<noteq> k') c)"
    by auto
  ultimately show ?thesis
    using assms(1) by (simp add: cache_wf_def)
qed

lemma miss_keeps_wf:
  assumes "cache_wf c" and "map_of c k' = None"
  shows "cache_wf (take maxsize ((k', v') # c))"
proof -
  have "k' \<notin> fst ` set c"
    using assms(2) by (simp add: map_of_eq_None_iff)
  then have "distinct (map fst ((k', v') # c))"
    using assms(1) by (simp add: cache_wf_def)
  then have "distinct (take maxsize (map fst ((k', v') # c)))"
    by (rule distinct_take)
  then have "distinct (map fst (take maxsize ((k', v') # c)))"
    by (simp only: take_map)
  moreover have "length (take maxsize ((k', v') # c)) \<le> maxsize"
    by simp
  ultimately show ?thesis
    unfolding cache_wf_def by (rule conjI)
qed

lemma entry_behind_step:
  assumes inv: "entry_behind k v S c"
    and fin: "finite S"
    and bound: "card (S \<union> ({(self, path, flag)} - {k})) < maxsize"
  shows "entry_behind k v (S \<union> ({(self, path, flag)} - {k}))
           (snd (url2localpath w self path flag c))"
proof -
  let ?k' = "(self, path, flag)"
  let ?S' = "S \<union> ({?k'} - {k})"
  from inv obtain pre rest where wf: "cache_wf c"
    and c: "c = pre @ (k, v) # rest" and pre: "fst ` set pre \<subseteq> S"
    unfolding entry_behind_def by blast
  have kv: "map_of c k = Some v"
    using inv by (rule entry_behind_lookup)
  have knot: "k \<notin> fst ` set pre"
    using wf c by (auto simp: cache_wf_def)
  show ?thesis
  proof (cases "map_of c ?k'")
    case (Some v')
    have new: "snd (url2localpath w self path flag c)
                 = (?k', v') # filter (\<lambda>e. fst e \<noteq> ?k') c"
      using Some by (simp add: url2localpath_def Let_def)
    have wf': "cache_wf ((?k', v') # filter (\<lambda>e. fst e \<noteq> ?k') c)"
      using wf Some by (rule hit_keeps_wf)
    show ?thesis
    proof (cases "?k' = k")
      case True
      with Some kv have "v' = v" by simp
      with True have "(?k', v') # filter (\<lambda>e. fst e \<noteq> ?k') c
                        = [] @ (k, v) # filter (\<lambda>e. fst e \<noteq> k) c"
        by simp
      with wf' new show ?thesis
        unfolding entry_behind_def by (metis empty_subsetI image_empty list.set(1))
    next
      case False
      then have "(?k', v') # filter (\<lambda>e. fst e \<noteq> ?k') c
                   = ((?k', v') # filter (\<lambda>e. fst e \<noteq> ?k') pre)
                       @ (k, v) # filter (\<lambda>e. fst e \<noteq> ?k') rest"
        using c by auto
      moreover have "fst ` set ((?k', v') # filter (\<lambda>e. fst e \<noteq> ?k') pre) \<subseteq> ?S'"
        using pre False by auto
      ultimately show ?thesis
        using wf' new unfolding entry_behind_def by metis
    qed
  next
    case None
    show ?thesis
    proof (cases "url2localpath_body w self path (case flag of None \<Rightarrow> False | Some b \<Rightarrow> b)")
      case (Inl e)
      with None have "snd (url2localpath w self path flag c) = c"
        by (simp add: url2localpath_def Let_def)
      with inv show ?thesis
        by (simp add: entry_behind_mono [of k v S c])
    next
      case (Inr v')
      with None have new: "snd (url2localpath w self path flag c)
                             = take maxsize ((?k', v') # c)"
        by (simp add: url2localpath_def Let_def)
      have ne: "?k' \<noteq> k"
        using None kv by auto
      have fresh: "?k' \<notin> fst ` set c"
        using None by (simp add: map_of_eq_None_iff)
      let ?pre = "(?k', v') # pre"
      have dist: "distinct (map fst ?pre)"
        using wf c fresh by (auto simp: cache_wf_def)
      have sub: "fst ` set ?pre \<subseteq> ?S'"
        using pre ne by auto
      have "length ?pre = card (fst ` set ?pre)"
        using distinct_card [OF dist] by simp
      also have "\<dots> \<le> card ?S'"
        using sub fin by (intro card_mono) auto
      finally have short: "length ?pre < maxsize"
        using bound by simp
      have "take maxsize ((?k', v') # c)
              = ?pre @ (k, v) # take (maxsize - length ?pre - 1) rest"
      proof -
        have "(?k', v') # c = ?pre @ (k, v) # rest"
          using c by simp
        moreover have "take maxsize (?pre @ (k, v) # rest)
                         = ?pre @ take (maxsize - length ?pre) ((k, v) # rest)"
          using short by (simp only: take_append) simp
        moreover have "take (maxsize - length ?pre) ((k, v) # rest)
                         = (k, v) # take (maxsize - length ?pre - 1) rest"
          using short by (cases "maxsize - length ?pre") auto
        ultimately show ?thesis by simp
      qed
      moreover have "cache_wf (take maxsize ((?k', v') # c))"
        using wf None by (rule miss_keeps_wf)
      ultimately show ?thesis
        using new sub unfolding entry_behind_def by metis
    qed
  qed
qed

lemma entry_behind_run:
  assumes "entry_behind k v S c"
    and "finite S"
    and "card (S \<union> (call_key ` set cs - {k})) < maxsize"
  shows "entry_behind k v (S \<union> (call_key ` set cs - {k})) (run_calls cs c)"
  using assms
proof (induction cs arbitrary: S c)
  case Nil
  then show ?case by simp
next
  case (Cons cl cs)
  obtain w self path flag where cl: "cl = (w, self, path, flag)"
    by (cases cl) auto
  let ?S1 = "S \<union> ({(self, path, flag)} - {k})"
  have eq: "?S1 \<union> (call_key ` set cs - {k}) = S \<union> (call_key ` set (cl # cs) - {k})"
    using cl by (auto simp: call_key_def)
  have fin: "finite (S \<union> (call_key ` set (cl # cs) - {k}))"
    using Cons.prems(2) by simp
  have "?S1 \<subseteq> S \<union> (call_key ` set (cl # cs) - {k})"
    using eq by blast
  then have "card ?S1 \<le> card (S \<union> (call_key ` set (cl # cs) - {k}))"
    using fin by (rule card_mono [rotated])
  then have b1: "card ?S1 < maxsize"
    using Cons.prems(3) by simp
  have step: "entry_behind k v ?S1 (snd (url2localpath w self path flag c))"
    using Cons.prems(1,2) b1 by (rule entry_behind_step)
  have "entry_behind k v (?S1 \<union> (call_key ` set cs - {k}))
          (run_calls cs (snd (url2localpath w self path flag c)))"
    using step Cons.prems(2,3) eq by (intro Cons.IH) auto
  then show ?case
    using eq cl by simp
qed

lemma first_call_in_front:
  assumes wf: "cache_wf c0"
    and first: "url2localpath w self path flag c0 = (Inr v, c1)"
  shows "entry_behind (self, path, flag) v {} c1"
proof (cases "map_of c0 (self, path, flag)")
  case (Some v')
  with first have v: "v' = v"
    and c1: "c1 = ((self, path, flag), v') # filter (\<lambda>e. fst e \<noteq> (self, path, flag)) c0"
    by (auto simp: url2localpath_def Let_def)
  have "cache_wf c1"
    unfolding c1 using wf Some by (rule hit_keeps_wf)
  moreover have "c1 = [] @ ((self, path, flag), v) # filter (\<lambda>e. fst e \<noteq> (self, path, flag)) c0"
    using c1 v by simp
  ultimately show ?thesis
    unfolding entry_behind_def by (metis empty_subsetI image_empty list.set(1))
next
  case None
  with first have c1: "c1 = take maxsize (((self, path, flag), v) # c0)"
    by (auto simp: url2localpath_def Let_def split: sum.splits)
  have "cache_wf c1"
    unfolding c1 using wf None by (rule miss_keeps_wf)
  moreover have "c1 = [] @ ((self, path, flag), v) # take (maxsize - 1) c0"
    using c1 by (simp add: maxsize_def)
  ultimately show ?thesis
    unfolding entry_behind_def by (metis empty_subsetI image_empty list.set(1))
qed

text \<open>
  C10, amended. Once \<^verbatim>\<open>url2localpath\<close> has returned a value for its arguments on a
  handler instance, a later call with the same arguments on that instance returns that
  value, whatever the root directories have become, as long as the calls in between
  (on any handler instance) have fewer than 128 distinct other argument tuples.
\<close>

theorem cached_value_returned_until_evicted:
  assumes "cache_wf c0"
    and "url2localpath w self path flag c0 = (Inr v, c1)"
    and "card (call_key ` set cs - {(self, path, flag)}) < maxsize"
  shows "fst (url2localpath w' self path flag (run_calls cs c1)) = Inr v"
proof -
  have "entry_behind (self, path, flag) v {} c1"
    using assms(1,2) by (rule first_call_in_front)
  then have "entry_behind (self, path, flag) v
               ({} \<union> (call_key ` set cs - {(self, path, flag)})) (run_calls cs c1)"
    using assms(3) by (intro entry_behind_run) auto
  then show ?thesis
    by (rule entry_behind_hit)
qed

theorem cached_value_returned_until_evicted_witness:
  "fst (url2localpath (sample_world ''/srv/b'') 0 ''x'' None
         (run_calls [(sample_world ''/srv/b'', 1, ''y'', None)]
            [((0, ''x'', None), LocalPath ''/srv/a/x'')]))
     = Inr (LocalPath ''/srv/a/x'')"
proof -
  have wf: "cache_wf []"
    by (simp add: cache_wf_def)
  have first: "url2localpath (sample_world ''/srv/a'') 0 ''x'' None []
                 = (Inr (LocalPath ''/srv/a/x''), [((0, ''x'', None), LocalPath ''/srv/a/x'')])"
    by code_simp
  have few: "card (call_key ` set [(sample_world ''/srv/b'', 1::nat, ''y'', None :: bool option)]
                    - {(0, ''x'', None)}) < maxsize"
    by (simp add: call_key_def maxsize_def)
  show ?thesis
    using cached_value_returned_until_evicted [OF wf first few, of "sample_world ''/srv/b''"] .
qed

section \<open>Traversal segments\<close>

lemma split_sep_no_sep:
  "s \<notin> set x \<Longrightarrow> split_sep s x = [x]"
  by (induction x) auto

lemma components_Nil: "components [] = []"
  by (simp add: components_def)

lemma components_append_sep:
  "components (a @ ''/'' @ b) = components a @ components b"
  using split_sep_append [of "CHR ''/''" a b] by (simp add: components_def)

lemma components_trailing_sep: "components (a @ ''/'') = components a"
  using components_append_sep [of a "[]"] by (simp add: components_Nil)

lemma components_after_sep:
  assumes "endswith_sep a"
  shows "components (a @ b) = components a @ components b"
proof -
  from assms have a: "a = butlast a @ ''/''"
    by (simp add: endswith_sep_def) (metis append_butlast_last_id)
  have "components (a @ b) = components (butlast a @ ''/'' @ b)"
    by (subst a) simp
  also have "\<dots> = components (butlast a) @ components b"
    by (rule components_append_sep)
  also have "components (butlast a) = components a"
    using components_trailing_sep [of "butlast a"] a by simp
  finally show ?thesis .
qed

lemma join_step_components:
  assumes "\<not> startswith_sep b"
  shows "components (join_step path b) = components path @ components b"
proof (cases "path = []")
  case True
  with assms show ?thesis
    by (simp add: join_step_def components_Nil)
next
  case False
  show ?thesis
  proof (cases "endswith_sep path")
    case True
    with assms show ?thesis
      by (simp add: join_step_def components_after_sep)
  next
    case no_sep: False
    with assms False have "join_step path b = path @ ''/'' @ b"
      by (simp add: join_step_def)
    then show ?thesis
      by (simp only: components_append_sep)
  qed
qed

lemma components_segment:
  assumes "CHR ''/'' \<notin> set seg"
  shows "components seg = filter (\<lambda>c. c \<noteq> []) [seg]"
  using split_sep_no_sep [OF assms] by (simp add: components_def)

lemma segment_not_absolute:
  assumes "CHR ''/'' \<notin> set seg"
  shows "\<not> startswith_sep seg"
  using assms by (cases seg) (auto simp: startswith_sep_def)

lemma join_components:
  assumes "\<forall>seg \<in> set ps. CHR ''/'' \<notin> set seg"
  shows "components (join a ps) = components a @ filter (\<lambda>c. c \<noteq> []) ps"
  using assms
proof (induction ps arbitrary: a)
  case Nil
  then show ?case by (simp add: join_def)
next
  case (Cons b ps)
  have b: "CHR ''/'' \<notin> set b"
    using Cons.prems by simp
  have rest: "\<forall>seg \<in> set ps. CHR ''/'' \<notin> set seg"
    using Cons.prems by simp
  have "components (join (join_step a b) ps)
          = components (join_step a b) @ filter (\<lambda>c. c \<noteq> []) ps"
    using rest by (rule Cons.IH)
  also have "components (join_step a b) = components a @ components b"
    using segment_not_absolute [OF b] by (rule join_step_components)
  also have "components b = filter (\<lambda>c. c \<noteq> []) [b]"
    using b by (rule components_segment)
  finally show ?case
    by (simp add: join_def)
qed

lemma join_step_not_absolute:
  assumes "\<not> startswith_sep a" and "\<not> startswith_sep b"
  shows "\<not> startswith_sep (join_step a b)"
  using assms by (cases a) (auto simp: join_step_def startswith_sep_def)

lemma join_not_absolute:
  assumes "\<not> startswith_sep a" and "\<forall>seg \<in> set ps. CHR ''/'' \<notin> set seg"
  shows "\<not> startswith_sep (join a ps)"
  using assms
proof (induction ps arbitrary: a)
  case Nil
  then show ?case by (simp add: join_def)
next
  case (Cons b ps)
  have "\<not> startswith_sep b"
    using Cons.prems(2) by (simp add: segment_not_absolute)
  with Cons.prems(1) have "\<not> startswith_sep (join_step a b)"
    by (rule join_step_not_absolute)
  moreover have "\<forall>seg \<in> set ps. CHR ''/'' \<notin> set seg"
    using Cons.prems(2) by simp
  ultimately have "\<not> startswith_sep (join (join_step a b) ps)"
    by (rule Cons.IH)
  then show ?case
    by (simp add: join_def)
qed

lemma url2path_relative:
  assumes "\<forall>seg \<in> set (decoded_segments p). CHR ''/'' \<notin> set seg"
  shows "components (url2path p) = filter (\<lambda>c. c \<noteq> []) (decoded_segments p)"
    and "\<not> startswith_sep (url2path p)"
proof -
  obtain a ps where segs: "decoded_segments p = a # ps"
    using split_sep_not_Nil [of "CHR ''/''" p]
    by (cases "decoded_segments p") (auto simp: decoded_segments_def)
  then have u: "url2path p = join a ps"
    by (simp add: url2path_def decoded_segments_def)
  have a: "CHR ''/'' \<notin> set a" and ps: "\<forall>seg \<in> set ps. CHR ''/'' \<notin> set seg"
    using assms segs by simp_all
  have "components (join a ps) = components a @ filter (\<lambda>c. c \<noteq> []) ps"
    using ps by (rule join_components)
  also have "components a = filter (\<lambda>c. c \<noteq> []) [a]"
    using a by (rule components_segment)
  finally show "components (url2path p) = filter (\<lambda>c. c \<noteq> []) (decoded_segments p)"
    using u segs by simp
  show "\<not> startswith_sep (url2path p)"
    unfolding u using segment_not_absolute [OF a] ps by (rule join_not_absolute)
qed

lemma foldl_norm_step_filter:
  "foldl norm_step st (filter (\<lambda>c. c \<noteq> []) cs) = foldl norm_step st cs"
  by (induction cs arbitrary: st) (simp_all add: norm_step_def)

lemma norm_components_via_components:
  "norm_components p = foldl norm_step [] (components p)"
  by (simp add: norm_components_def components_def foldl_norm_step_filter)

lemma stays_below_keeps_base:
  assumes "stays_below (length e) cs"
  shows "\<exists>e'. foldl norm_step (base @ e) cs = base @ e'"
  using assms
proof (induction cs arbitrary: e)
  case Nil
  then show ?case by simp
next
  case (Cons c cs)
  show ?case
  proof (cases "c = [] \<or> c = ''.''")
    case True
    with Cons.prems have "stays_below (length e) cs"
      by simp
    then obtain e' where "foldl norm_step (base @ e) cs = base @ e'"
      using Cons.IH by blast
    moreover have "norm_step (base @ e) c = base @ e"
      using True by (auto simp: norm_step_def)
    ultimately show ?thesis
      by simp
  next
    case False
    show ?thesis
    proof (cases "c = ''..''")
      case True
      with False Cons.prems have pos: "0 < length e"
        and below: "stays_below (length e - 1) cs"
        by simp_all
      from pos have ne: "e \<noteq> []"
        by simp
      have "stays_below (length (butlast e)) cs"
        using below by simp
      then obtain e' where "foldl norm_step (base @ butlast e) cs = base @ e'"
        using Cons.IH by blast
      moreover have "norm_step (base @ e) c = base @ butlast e"
        using True ne by (simp add: norm_step_def butlast_append)
      ultimately show ?thesis
        by simp
    next
      case other: False
      with False Cons.prems have "stays_below (Suc (length e)) cs"
        by simp
      then have "stays_below (length (e @ [c])) cs"
        by simp
      then obtain e' where "foldl norm_step (base @ e @ [c]) cs = base @ e'"
        using Cons.IH by blast
      moreover have "norm_step (base @ e) c = base @ e @ [c]"
        using False other by (simp add: norm_step_def)
      ultimately show ?thesis
        by simp
    qed
  qed
qed

lemma join_within_root:
  assumes abs: "startswith_sep r"
    and rel: "\<not> startswith_sep u"
    and below: "stays_below 0 (components u)"
  shows "within_root r (join r [u])"
proof -
  have lp: "join r [u] = join_step r u"
    by (simp add: join_def)
  have comps: "components (join_step r u) = components r @ components u"
    using rel by (rule join_step_components)
  have "norm_components (join_step r u)
          = foldl norm_step (norm_components r) (components u)"
    by (simp add: norm_components_via_components comps)
  moreover obtain e' where
    "foldl norm_step (norm_components r @ []) (components u) = norm_components r @ e'"
    using stays_below_keeps_base [of "[]" "components u" "norm_components r"] below
    by auto
  ultimately have pre: "prefix (norm_components r) (norm_components (join_step r u))"
    by simp
  have "startswith_sep (join_step r u)"
    using abs rel by (cases r) (auto simp: join_step_def startswith_sep_def)
  with abs pre show ?thesis
    by (simp add: within_root_def lp)
qed

lemma stays_below_filter:
  "stays_below d (filter (\<lambda>c. c \<noteq> []) cs) = stays_below d cs"
  by (induction cs arbitrary: d) simp_all

text \<open>
  C1, as stated, fails: nothing in \<^verbatim>\<open>url2localpath\<close> looks at \<^verbatim>\<open>..\<close>. With the root
  \<^verbatim>\<open>/srv/root\<close> the path \<^verbatim>\<open>../etc/passwd\<close> is not rejected, and the path returned for
  it, \<^verbatim>\<open>/srv/root/../etc/passwd\<close>, names \<^verbatim>\<open>/srv/etc/passwd\<close>, outside the root.
\<close>

theorem traversal_escapes_root:
  "has_traversal ''../etc/passwd''
   \<and> fst (url2localpath (sample_world ''/srv/root'') 0 ''../etc/passwd'' None [])
       = Inr (LocalPath ''/srv/root/../etc/passwd'')
   \<and> norm_components ''/srv/root/../etc/passwd'' = [''srv'', ''etc'', ''passwd'']
   \<and> \<not> within_root ''/srv/root'' ''/srv/root/../etc/passwd''"
  by code_simp

text \<open>
  C1, amended. Let \<open>cm\<close> be the manager selected for the request path and \<open>p\<close> the path
  left for it: the sub-manager and the path that \<^verbatim>\<open>_resolve_path\<close> returns when the
  contents manager is a composite and \<^verbatim>\<open>hybridcontents\<close> is there, and otherwise the
  contents manager and the request path themselves. When the expanded root of \<open>cm\<close> is
  absolute, no decoded segment of \<open>p\<close> contains a separator, and the decoded segments
  of \<open>p\<close> never climb above where they start (at every point the \<^verbatim>\<open>..\<close> segments so
  far are matched by ordinary ones before them), the body of \<^verbatim>\<open>url2localpath\<close>
  returns \<^verbatim>\<open>os.path.join\<close> of the expanded root and \<^verbatim>\<open>url2path(p)\<close>, that path read
  lexically lies within the expanded root of \<open>cm\<close>, and the memoised function returns
  it too when its table has no entry for the arguments or holds only values of the
  present surroundings.
\<close>

theorem traversal_within_root_when_balanced:
  assumes "spec_select w self path = Inr (cm, root, p)"
    and "startswith_sep (expanduser (os w) root)"
    and "\<forall>seg \<in> set (decoded_segments p). CHR ''/'' \<notin> set seg"
    and "stays_below 0 (decoded_segments p)"
  shows "url2localpath_body w self path False
           = Inr (LocalPath (join (expanduser (os w) root) [url2path p]))
         \<and> within_root (expanduser (os w) root) (join (expanduser (os w) root) [url2path p])
         \<and> (map_of c (self, path, None) = None \<or> cache_sound w c \<longrightarrow>
              fst (url2localpath w self path None c)
                = Inr (LocalPath (join (expanduser (os w) root) [url2path p])))
         \<and> (hybridcontents w = None \<or> (\<exists>m. contents_manager_of w self = Plain m) \<longrightarrow>
              cm = contents_manager_of w self \<and> p = path)"
proof -
  have body: "url2localpath_body w self path False
                = Inr (LocalPath (join (expanduser (os w) root) [url2path p]))"
    using url2localpath_body_selected [OF assms(1), of False] by simp
  have comps: "components (url2path p) = filter (\<lambda>c. c \<noteq> []) (decoded_segments p)"
    and rel: "\<not> startswith_sep (url2path p)"
    using url2path_relative [OF assms(3)] by simp_all
  have "stays_below 0 (components (url2path p))"
    using assms(4) by (simp add: comps stays_below_filter)
  with assms(2) rel
  have inside: "within_root (expanduser (os w) root)
                  (join (expanduser (os w) root) [url2path p])"
    by (rule join_within_root)
  have memo: "map_of c (self, path, None) = None \<or> cache_sound w c \<longrightarrow>
                fst (url2localpath w self path None c)
                  = Inr (LocalPath (join (expanduser (os w) root) [url2path p]))"
  proof
    assume "map_of c (self, path, None) = None \<or> cache_sound w c"
    then show "fst (url2localpath w self path None c)
                 = Inr (LocalPath (join (expanduser (os w) root) [url2path p]))"
    proof
      assume "map_of c (self, path, None) = None"
      then show ?thesis
        using body by (simp add: url2localpath_def)
    next
      assume "cache_sound w c"
      then have "fst (url2localpath w self path None c)
                   = url2localpath_body w self path (case None of None \<Rightarrow> False | Some b \<Rightarrow> b)"
        by (rule cache_sound_result)
      with body show ?thesis
        by simp
    qed
  qed
  have same: "hybridcontents w = None \<or> (\<exists>m. contents_manager_of w self = Plain m) \<longrightarrow>
                cm = contents_manager_of w self \<and> p = path"
    using assms(1)
    by (auto simp: spec_select_def split: host_manager.splits option.splits)
  show ?thesis
    by (intro conjI body inside memo same)
qed

theorem traversal_within_root_when_balanced_witness:
  "fst (url2localpath (sample_world ''/srv/root'') 0 ''a/../b%20c'' None [])
     = Inr (LocalPath ''/srv/root/a/../b c'')
   \<and> within_root ''/srv/root'' ''/srv/root/a/../b c''
   \<and> contents_manager_of (sample_world ''/srv/root'') 0 = Plain \<lparr>root_dir = ''/srv/root''\<rparr>
   \<and> url2localpath_body hybrid_world 0 ''docs/../x'' False
       = Inr (LocalPath ''/home/user/notebooks/docs/../x'')
   \<and> within_root ''/home/user/notebooks'' ''/home/user/notebooks/docs/../x''"
proof -
  let ?w = "sample_world ''/srv/root''"
  have sel: "spec_select ?w 0 ''a/../b%20c''
               = Inr (Plain \<lparr>root_dir = ''/srv/root''\<rparr>, ''/srv/root'', ''a/../b%20c'')"
    by (simp add: spec_select_def sample_world_def)
  have exp: "expanduser (os ?w) ''/srv/root'' = ''/srv/root''"
    by (simp add: expanduser_def)
  have abs: "startswith_sep (expanduser (os ?w) ''/srv/root'')"
    by (simp add: exp startswith_sep_def)
  have segs: "decoded_segments ''a/../b%20c'' = [''a'', ''..'', ''b c'']"
    by code_simp
  have nosep: "\<forall>seg \<in> set (decoded_segments ''a/../b%20c''). CHR ''/'' \<notin> set seg"
    by (simp add: segs)
  have below: "stays_below 0 (decoded_segments ''a/../b%20c'')"
    by (simp add: segs)
  have u: "join ''/srv/root'' [url2path ''a/../b%20c''] = ''/srv/root/a/../b c''"
    by code_simp
  have miss: "map_of ([] :: cache) (0, ''a/../b%20c'', None) = None \<or> cache_sound ?w []"
    by simp
  note t = traversal_within_root_when_balanced [OF sel abs nosep below, of "[]"]
  have r1: "fst (url2localpath ?w 0 ''a/../b%20c'' None [])
              = Inr (LocalPath ''/srv/root/a/../b c'')"
    using t [THEN conjunct2, THEN conjunct2, THEN conjunct1] miss
    by (simp only: exp u)
  have r2: "within_root ''/srv/root'' ''/srv/root/a/../b c''"
    using t [THEN conjunct2, THEN conjunct1]
    by (simp only: exp u)
  have plain: "hybridcontents ?w = None
               \<or> (\<exists>m. contents_manager_of ?w 0 = Plain m)"
    by (simp add: sample_world_def)
  have r5: "contents_manager_of ?w 0 = Plain \<lparr>root_dir = ''/srv/root''\<rparr>"
    using t [THEN conjunct2, THEN conjunct2, THEN conjunct2] plain
    by simp
  have sel': "spec_select hybrid_world 0 ''docs/../x''
                = Inr (Plain \<lparr>root_dir = ''~/notebooks''\<rparr>, ''~/notebooks'', ''docs/../x'')"
    by code_simp
  have exp': "expanduser (os hybrid_world) ''~/notebooks'' = ''/home/user/notebooks''"
    by code_simp
  have abs': "startswith_sep (expanduser (os hybrid_world) ''~/notebooks'')"
    by (simp add: exp' startswith_sep_def)
  have segs': "decoded_segments ''docs/../x'' = [''docs'', ''..'', ''x'']"
    by code_simp
  have nosep': "\<forall>seg \<in> set (decoded_segments ''docs/../x''). CHR ''/'' \<notin> set seg"
    by (simp add: segs')
  have below': "stays_below 0 (decoded_segments ''docs/../x'')"
    by (simp add: segs')
  have u': "join ''/home/user/notebooks'' [url2path ''docs/../x'']
              = ''/home/user/notebooks/docs/../x''"
    by code_simp
  note t' = traversal_within_root_when_balanced [OF sel' abs' nosep' below', of "[]"]
  have r3: "url2localpath_body hybrid_world 0 ''docs/../x'' False
              = Inr (LocalPath ''/home/user/notebooks/docs/../x'')"
    using t' [THEN conjunct1]
    by (simp only: exp' u')
  have r4: "within_root ''/home/user/notebooks'' ''/home/user/notebooks/docs/../x''"
    using t' [THEN conjunct2, THEN conjunct1]
    by (simp only: exp' u')
  show ?thesis
    by (intro conjI r1 r2 r5 r3 r4)
qed

end
